theory Spec2Isabelle
  imports Main "HOL-Library.Multiset" "HOL-Library.Sublist" "HOL-Library.Word"
begin

section \<open>The thread pool of thread\_pool\_example.cpp\<close>

text \<open>
  The class \<^verbatim>\<open>ThreadPool\<close> owns a vector of worker threads, a queue of
  type-erased tasks, a mutex, a condition variable and the flag \<^verbatim>\<open>stop\<close>.
  The embedding is an interleaving semantics: every block of the source that runs
  under \<^verbatim>\<open>queue_mutex\<close> is one atomic step, the execution of a task
  (lines 26-32, outside the lock) is a step of its own, and a schedule is the list of
  the steps in the order in which they take effect. A thread that waits (in
  \<^verbatim>\<open>condition.wait\<close> or in \<^verbatim>\<open>join\<close>) has no step: the step is
  \<open>Blocked\<close>. \<^verbatim>\<open>condition.wait(lock, pred)\<close> is the loop
  \<^verbatim>\<open>while (!pred()) wait(lock)\<close>: a worker that finds the predicate of line 21
  false goes to sleep, and a worker that is woken, by \<^verbatim>\<open>notify_one\<close> (line 51), by
  \<^verbatim>\<open>notify_all\<close> (line 60) or spuriously, takes the lock and tests the predicate
  again.

  A task body is the callable \<^verbatim>\<open>std::bind(f, args...)\<close>: here it is the value it
  produces when called, \<open>Inr v\<close> for \<^verbatim>\<open>return v\<close> and \<open>Inl e\<close> for
  \<^verbatim>\<open>throw e\<close>. Bodies are taken to return and to leave the pool alone; a body
  that submits to its own pool is a separate \<open>Enqueue\<close> step of the schedule.
\<close>

subsection \<open>Exceptions, packaged tasks and futures\<close>

datatype future_errc = broken_promise | promise_already_satisfied | no_state

text \<open>
  The exceptions the model tells apart: \<^verbatim>\<open>std::runtime_error\<close> with its
  \<^verbatim>\<open>what()\<close> (it also stands for any other \<^verbatim>\<open>std::exception\<close> a body
  throws), \<^verbatim>\<open>std::future_error\<close> with its code, and an exception that is not a
  \<^verbatim>\<open>std::exception\<close> (the \<^verbatim>\<open>catch (...)\<close> of line 30).
\<close>

datatype exn = runtime_error string | future_error future_errc | other_exception

text \<open>
  \<^verbatim>\<open>std::packaged_task<return_type()>\<close> (line 41): the stored callable and the
  shared state it has in common with its future. \<open>result\<close> is \<open>None\<close> until the
  shared state is made ready. The objects made by \<^verbatim>\<open>std::make_shared\<close> live in a
  heap, a list addressed by position; the lambda of line 49 and the future of line 45
  each hold the address.
\<close>

record 'a packaged_task =
  fn :: "exn + 'a"
  result :: "(exn + 'a) option"

record future =
  shared_state :: nat
  valid :: bool

text \<open>
  \<^verbatim>\<open>(*task)()\<close> (line 49), as the standard library defines
  \<^verbatim>\<open>packaged_task::operator()\<close>: the callable runs, and its value or the
  exception it throws is stored in the shared state, which becomes ready; nothing is
  thrown to the caller. A second call finds the state ready and throws
  \<^verbatim>\<open>future_error(promise_already_satisfied)\<close>; a task without a shared state
  throws \<^verbatim>\<open>future_error(no_state)\<close>.
\<close>

definition invoke :: "nat \<Rightarrow> 'a packaged_task list \<Rightarrow> exn + 'a packaged_task list" where
  "invoke p h =
     (if \<not> p < length h then Inl (future_error no_state)
      else case result (h ! p) of
             Some r \<Rightarrow> Inl (future_error promise_already_satisfied)
           | None \<Rightarrow> Inr (h[p := (h ! p)\<lparr>result := Some (fn (h ! p))\<rparr>]))"

text \<open>
  \<^verbatim>\<open>~packaged_task\<close>: a task destroyed before it ran abandons its shared state,
  which becomes ready with \<^verbatim>\<open>future_error(broken_promise)\<close>.
\<close>

definition abandon :: "nat \<Rightarrow> 'a packaged_task list \<Rightarrow> 'a packaged_task list" where
  "abandon p h =
     (if \<not> p < length h then h
      else case result (h ! p) of
             Some r \<Rightarrow> h
           | None \<Rightarrow> h[p := (h ! p)\<lparr>result := Some (Inl (future_error broken_promise))\<rparr>])"

text \<open>
  \<^verbatim>\<open>std::future::get\<close> (line 102), as the standard library defines it: it waits
  until the shared state is ready, returns the stored value or rethrows the stored
  exception, and releases the shared state, so that \<^verbatim>\<open>valid()\<close> is false
  afterwards. On a future that is not valid the standard leaves the behaviour
  undefined (implementations are encouraged to throw \<^verbatim>\<open>future_error(no_state)\<close>).
\<close>

datatype 'a got = Not_ready | Got "exn + 'a" | Undefined_behaviour

definition future_get :: "future \<Rightarrow> 'a packaged_task list \<Rightarrow> 'a got \<times> future" where
  "future_get fut h =
     (if \<not> valid fut \<or> \<not> shared_state fut < length h then (Undefined_behaviour, fut)
      else case result (h ! shared_state fut) of
             None \<Rightarrow> (Not_ready, fut)
           | Some r \<Rightarrow> (Got r, fut\<lparr>valid := False\<rparr>))"

subsection \<open>The pool\<close>

text \<open>
  Where a worker thread stands in the lambda of lines 16-34: \<open>Idle\<close> at the top of
  the loop or just woken, about to take the lock and test the predicate of line 21;
  \<open>Waiting\<close> asleep in the wait of line 21; \<open>Executing p\<close> between the end of the
  locked block (line 25) and the end of the try block (line 32), holding the task at
  address \<open>p\<close>; \<open>Terminated\<close> after the \<^verbatim>\<open>return\<close> of line 22.
\<close>

datatype pc = Idle | Waiting | Executing nat | Terminated

record thread =
  pc :: pc
  joinable :: bool

datatype log = Task_error exn | Task_unknown_error

text \<open>
  The members of the class (lines 73-77) are \<open>workers\<close>, \<open>tasks\<close> and \<open>stop\<close>;
  the mutex and the condition variable are the atomicity and the blocking of the
  steps. With them the state holds what the pool acts on: the \<open>heap\<close> of packaged
  tasks, the lines written to \<^verbatim>\<open>std::cerr\<close>, and \<open>alive\<close>, true from the end of
  the constructor until the members have been destroyed.
\<close>

record 'a pool =
  workers :: "thread list"
  tasks :: "nat list"
  stop :: bool
  alive :: bool
  heap :: "'a packaged_task list"
  cerr :: "log list"

text \<open>
  The constructor, lines 14-35. Each round of the loop creates one
  \<^verbatim>\<open>std::thread\<close> and puts it at the back of the vector. The creation can fail:
  \<open>capacity\<close> is the number of threads the system lets the process start, and the
  creation of a further one throws \<^verbatim>\<open>std::system_error\<close>. Nothing in the
  constructor catches it (lines 15-16), so it leaves the constructor, and the
  members are destroyed on the way out: with no thread started yet the exception
  reaches the caller; with a thread started, the destructor of a joinable
  \<^verbatim>\<open>std::thread\<close> calls \<^verbatim>\<open>std::terminate\<close>. Either way there is no pool.
  (An allocation the vector cannot make leaves the constructor the same way, with
  \<^verbatim>\<open>std::bad_alloc\<close>; \<open>capacity\<close> stands for both limits.)
  \<^verbatim>\<open>size_t\<close> is taken as 64 bits wide; the counter stays below
  \<open>threads\<close>, so it does not wrap.
\<close>

type_synonym size_t = "64 word"

datatype ctor_fault = system_error | std_terminate

function spawn :: "nat \<Rightarrow> nat \<Rightarrow> nat \<Rightarrow> thread list \<Rightarrow> ctor_fault + thread list" where
  "spawn capacity i threads ws =
     (if i < threads
      then if length ws < capacity
           then spawn capacity (i + 1) threads (ws @ [\<lparr>pc = Idle, joinable = True\<rparr>])
           else if ws = [] then Inl system_error else Inl std_terminate
      else Inr ws)"
  by pat_completeness auto
termination
  by (relation "measure (\<lambda>(capacity, i, threads, ws). threads - i)") auto

declare spawn.simps [simp del]

definition construct :: "nat \<Rightarrow> size_t \<Rightarrow> ctor_fault + 'a pool" where
  "construct capacity threads =
     (case spawn capacity 0 (unat threads) [] of
        Inl e \<Rightarrow> Inl e
      | Inr ws \<Rightarrow>
          Inr \<lparr>workers = ws, tasks = [], stop = False, alive = True, heap = [], cerr = []\<rparr>)"

text \<open>
  \<open>ThreadPool n\<close> is the pool a constructor call returns when it returns one, \<open>n\<close>
  its number of workers (\<open>construct_eq\<close> below): the schedules start there.
\<close>

definition ThreadPool :: "nat \<Rightarrow> 'a pool" where
  "ThreadPool n =
     \<lparr>workers = replicate n \<lparr>pc = Idle, joinable = True\<rparr>, tasks = [], stop = False,
      alive = True, heap = [], cerr = []\<rparr>"

text \<open>
  \<^verbatim>\<open>main\<close>, lines 82-83: the size it constructs its pool with, an
  \<^verbatim>\<open>unsigned int\<close> (32 bits) that the call converts to \<^verbatim>\<open>size_t\<close>.
\<close>

definition main_threads :: "32 word \<Rightarrow> 32 word" where
  "main_threads n = (if n > 0 then n else 4)"

definition main_pool :: "nat \<Rightarrow> 32 word \<Rightarrow> ctor_fault + 'a pool" where
  "main_pool capacity n = construct capacity (ucast (main_threads n))"

text \<open>
  \<^verbatim>\<open>enqueue\<close>, lines 38-53. The packaged task and its future are made first
  (lines 41-45); under the lock the flag is read, and either the exception is thrown,
  which destroys the two locals again, or the address is put at the back of the queue.
\<close>

definition enqueue :: "exn + 'a \<Rightarrow> 'a pool \<Rightarrow> (exn + future) \<times> 'a pool" where
  "enqueue f s =
     (let task = length (heap s);
          s1 = s\<lparr>heap := heap s @ [\<lparr>fn = f, result = None\<rparr>]\<rparr>;
          res = \<lparr>shared_state = task, valid = True\<rparr>
      in if stop s1
         then (Inl (runtime_error ''enqueue on stopped ThreadPool''),
               s1\<lparr>heap := butlast (heap s1)\<rparr>)
         else (Inr res, s1\<lparr>tasks := tasks s1 @ [task]\<rparr>))"

subsection \<open>Steps\<close>

text \<open>
  What a step shows to an observer. \<open>Dequeued i p\<close>: worker \<open>i\<close> took task \<open>p\<close>
  from the queue and starts on it; \<open>Executed i p\<close>: worker \<open>i\<close> has run task \<open>p\<close>.
\<close>

datatype event =
    Enqueued nat | Rejected
  | Slept nat | Woken nat | Dequeued nat nat | Exited nat | Executed nat nat
  | Stopped | Notified_all | Joined nat | Not_joinable nat | Destroyed

text \<open>
  A step that cannot be taken: \<open>Blocked\<close>, the thread waits; \<open>No_object\<close>, a member
  is used after the pool's lifetime has ended, to which C++ gives no meaning.
\<close>

datatype fault = Blocked | No_object

definition set_pc :: "nat \<Rightarrow> pc \<Rightarrow> 'a pool \<Rightarrow> 'a pool" where
  "set_pc i c s = s\<lparr>workers := (workers s)[i := (workers s ! i)\<lparr>pc := c\<rparr>]\<rparr>"

text \<open>
  The locked block of the worker, lines 19-25: with the predicate of line 21 false the
  worker releases the lock and sleeps; otherwise it returns or takes the front task.
\<close>

definition worker_wait :: "nat \<Rightarrow> 'a pool \<Rightarrow> fault + event \<times> 'a pool" where
  "worker_wait i s =
     (if \<not> (stop s \<or> tasks s \<noteq> []) then Inr (Slept i, set_pc i Waiting s)
      else if stop s \<and> tasks s = [] then Inr (Exited i, set_pc i Terminated s)
      else Inr (Dequeued i (hd (tasks s)),
                set_pc i (Executing (hd (tasks s))) (s\<lparr>tasks := tl (tasks s)\<rparr>)))"

text \<open>The try block of the worker, lines 26-32; the loop then starts over.\<close>

definition worker_run :: "nat \<Rightarrow> nat \<Rightarrow> 'a pool \<Rightarrow> fault + event \<times> 'a pool" where
  "worker_run i p s =
     (case invoke p (heap s) of
        Inr h \<Rightarrow> Inr (Executed i p, set_pc i Idle (s\<lparr>heap := h\<rparr>))
      | Inl other_exception \<Rightarrow>
          Inr (Executed i p, set_pc i Idle (s\<lparr>cerr := cerr s @ [Task_unknown_error]\<rparr>))
      | Inl e \<Rightarrow>
          Inr (Executed i p, set_pc i Idle (s\<lparr>cerr := cerr s @ [Task_error e]\<rparr>)))"

definition worker :: "nat \<Rightarrow> 'a pool \<Rightarrow> fault + event \<times> 'a pool" where
  "worker i s =
     (if \<not> i < length (workers s) then Inl Blocked
      else case pc (workers s ! i) of
             Idle \<Rightarrow> worker_wait i s
           | Waiting \<Rightarrow> Inl Blocked
           | Executing p \<Rightarrow> worker_run i p s
           | Terminated \<Rightarrow> Inl Blocked)"

text \<open>
  A sleeping worker is woken: by the \<^verbatim>\<open>notify_one\<close> of line 51, which wakes one
  of the sleeping workers, or spuriously, which \<^verbatim>\<open>condition.wait\<close> allows at any
  time. Which worker wakes is the schedule's choice.
\<close>

definition wake :: "nat \<Rightarrow> 'a pool \<Rightarrow> fault + event \<times> 'a pool" where
  "wake i s =
     (if i < length (workers s) \<and> pc (workers s ! i) = Waiting
      then Inr (Woken i, set_pc i Idle s)
      else Inl Blocked)"

text \<open>
  The destructor, lines 55-66: the locked block that sets the flag (lines 56-59),
  \<^verbatim>\<open>notify_all\<close> (line 60), which wakes every sleeping worker, then one round of
  the loop per worker (lines 61-65), in the order of the vector; \<^verbatim>\<open>join\<close> waits
  until the thread function has returned. After the body the members are destroyed:
  the queue releases the tasks it still holds.
\<close>

definition dtor_stop :: "'a pool \<Rightarrow> 'a pool" where
  "dtor_stop s = s\<lparr>stop := True\<rparr>"

definition wake_up :: "thread \<Rightarrow> thread" where
  "wake_up w = (if pc w = Waiting then w\<lparr>pc := Idle\<rparr> else w)"

definition dtor_notify :: "'a pool \<Rightarrow> 'a pool" where
  "dtor_notify s = s\<lparr>workers := map wake_up (workers s)\<rparr>"

definition dtor_join :: "nat \<Rightarrow> 'a pool \<Rightarrow> fault + event \<times> 'a pool" where
  "dtor_join i s =
     (if \<not> stop s \<or> \<not> i < length (workers s)
         \<or> \<not> list_all (\<lambda>w. \<not> joinable w) (take i (workers s)) then Inl Blocked
      else if \<not> joinable (workers s ! i) then Inr (Not_joinable i, s)
      else if pc (workers s ! i) \<noteq> Terminated then Inl Blocked
      else Inr (Joined i, s\<lparr>workers := (workers s)[i := (workers s ! i)\<lparr>joinable := False\<rparr>]\<rparr>))"

definition dtor_members :: "'a pool \<Rightarrow> fault + event \<times> 'a pool" where
  "dtor_members s =
     (if \<not> stop s \<or> \<not> list_all (\<lambda>w. \<not> joinable w) (workers s) then Inl Blocked
      else Inr (Destroyed, s\<lparr>heap := fold abandon (tasks s) (heap s), alive := False\<rparr>))"

datatype 'a action =
  Enqueue "exn + 'a" | Worker nat | Wake nat | Stop | Notify_all | Join nat | Destroy

definition step :: "'a action \<Rightarrow> 'a pool \<Rightarrow> fault + event \<times> 'a pool" where
  "step a s =
     (if \<not> alive s then Inl No_object
      else case a of
             Enqueue f \<Rightarrow>
               (case enqueue f s of
                  (Inl e, s') \<Rightarrow> Inr (Rejected, s')
                | (Inr fut, s') \<Rightarrow> Inr (Enqueued (shared_state fut), s'))
           | Worker i \<Rightarrow> worker i s
           | Wake i \<Rightarrow> wake i s
           | Stop \<Rightarrow> Inr (Stopped, dtor_stop s)
           | Notify_all \<Rightarrow> (if stop s then Inr (Notified_all, dtor_notify s) else Inl Blocked)
           | Join i \<Rightarrow> dtor_join i s
           | Destroy \<Rightarrow> dtor_members s)"

text \<open>A schedule runs from a state; the events of its steps are its trace.\<close>

fun run :: "'a action list \<Rightarrow> 'a pool \<Rightarrow> fault + event list \<times> 'a pool" where
  "run [] s = Inr ([], s)"
| "run (a # as) s =
     (case step a s of
        Inl e \<Rightarrow> Inl e
      | Inr (ev, s') \<Rightarrow>
          (case run as s' of
             Inl e \<Rightarrow> Inl e
           | Inr (tr, s'') \<Rightarrow> Inr (ev # tr, s'')))"

text \<open>What a trace says: the tasks enqueued, dequeued and executed, in order.\<close>

fun enqs :: "event list \<Rightarrow> nat list" where
  "enqs [] = []"
| "enqs (Enqueued p # tr) = p # enqs tr"
| "enqs (ev # tr) = enqs tr"

fun deqs :: "event list \<Rightarrow> (nat \<times> nat) list" where
  "deqs [] = []"
| "deqs (Dequeued i p # tr) = (i, p) # deqs tr"
| "deqs (ev # tr) = deqs tr"

fun execs :: "event list \<Rightarrow> (nat \<times> nat) list" where
  "execs [] = []"
| "execs (Executed i p # tr) = (i, p) # execs tr"
| "execs (ev # tr) = execs tr"

text \<open>The tasks the workers hold, in the order of the vector.\<close>

fun held :: "pc \<Rightarrow> nat list" where
  "held (Executing p) = [p]"
| "held c = []"

definition executing :: "'a pool \<Rightarrow> nat list" where
  "executing s = concat (map (\<lambda>w. held (pc w)) (workers s))"

subsection \<open>Invariants\<close>

text \<open>
  Four invariants of the schedules that start at a new pool, each over the trace so
  far and the state reached. Ownership: every task ever allocated is in exactly one
  place, the queue, the hands of one worker, or the executed ones; a task in the
  queue or in a worker's hands has not run; an executed task holds the value of its
  own callable; nothing was written to \<^verbatim>\<open>std::cerr\<close>.
\<close>

definition inv_own :: "event list \<Rightarrow> 'a pool \<Rightarrow> bool" where
  "inv_own tr s \<longleftrightarrow>
     mset (map snd (execs tr)) + mset (executing s) + mset (tasks s) = mset [0..<length (heap s)]
     \<and> (alive s \<longrightarrow> (\<forall>p \<in> set (executing s @ tasks s). result (heap s ! p) = None))
     \<and> (\<forall>p \<in> set (map snd (execs tr)). result (heap s ! p) = Some (fn (heap s ! p)))
     \<and> cerr s = []"

text \<open>
  Lifetime: a thread that is no longer joinable has returned; once a worker has
  returned the flag is set and the queue is empty; the members are destroyed only
  after the flag is set and every thread is joined.
\<close>

definition inv_life :: "'a pool \<Rightarrow> bool" where
  "inv_life s \<longleftrightarrow>
     (\<forall>w \<in> set (workers s). \<not> joinable w \<longrightarrow> pc w = Terminated)
     \<and> ((\<exists>w \<in> set (workers s). pc w = Terminated) \<longrightarrow> stop s \<and> tasks s = [])
     \<and> (\<not> alive s \<longrightarrow> stop s \<and> (\<forall>w \<in> set (workers s). \<not> joinable w))"

text \<open>
  Order: tasks get consecutive addresses in the order of their enqueueing; the tasks
  dequeued so far, followed by the queue, are the tasks enqueued; a task is executed
  by the worker that dequeued it; a single worker executes in the order of dequeueing.
\<close>

definition inv_fifo :: "event list \<Rightarrow> 'a pool \<Rightarrow> bool" where
  "inv_fifo tr s \<longleftrightarrow>
     enqs tr = [0..<length (heap s)]
     \<and> enqs tr = map snd (deqs tr) @ tasks s
     \<and> set (execs tr) \<subseteq> set (deqs tr)
     \<and> (\<forall>i < length (workers s). \<forall>p. pc (workers s ! i) = Executing p \<longrightarrow> (i, p) \<in> set (deqs tr))
     \<and> (length (workers s) = 1 \<longrightarrow> map snd (deqs tr) = map snd (execs tr) @ executing s)"

text \<open>
  Joining: once the destructor's round for a worker is over, that thread is not
  joinable.
\<close>

definition inv_join :: "event list \<Rightarrow> 'a pool \<Rightarrow> bool" where
  "inv_join tr s \<longleftrightarrow>
     (\<forall>i. Joined i \<in> set tr \<or> Not_joinable i \<in> set tr \<longrightarrow>
          i < length (workers s) \<and> \<not> joinable (workers s ! i))"

section \<open>Properties\<close>

subsection \<open>The steps, case by case\<close>

lemma spawn_eq:
  "spawn capacity i threads ws =
     (if threads \<le> i then Inr ws
      else if length ws + (threads - i) \<le> capacity
      then Inr (ws @ replicate (threads - i) \<lparr>pc = Idle, joinable = True\<rparr>)
      else if ws = [] \<and> capacity = 0 then Inl system_error else Inl std_terminate)"
proof (induction capacity i threads ws rule: spawn.induct)
  case (1 capacity i threads ws)
  show ?case
  proof (cases "i < threads \<and> length ws < capacity")
    case True
    then have "threads - i = Suc (threads - (i + 1))" by auto
    with True "1" show ?thesis
      by (subst spawn.simps) (auto simp: replicate_app_Cons_same)
  next
    case False
    then show ?thesis by (subst spawn.simps) auto
  qed
qed

lemma construct_eq:
  "construct capacity threads =
     (if unat threads \<le> capacity then Inr (ThreadPool (unat threads))
      else if capacity = 0 then Inl system_error else Inl std_terminate)"
  by (simp add: construct_def spawn_eq ThreadPool_def)

lemma enqueue_stop: "stop s \<Longrightarrow> enqueue f s = (Inl (runtime_error ''enqueue on stopped ThreadPool''), s)"
  by (simp add: enqueue_def Let_def)

lemma enqueue_run:
  "\<not> stop s \<Longrightarrow> enqueue f s =
     (Inr \<lparr>shared_state = length (heap s), valid = True\<rparr>,
      s\<lparr>heap := heap s @ [\<lparr>fn = f, result = None\<rparr>], tasks := tasks s @ [length (heap s)]\<rparr>)"
  by (simp add: enqueue_def Let_def)

lemma invoke_cases:
  obtains (ok) "p < length h" "result (h ! p) = None"
            "invoke p h = Inr (h[p := (h ! p)\<lparr>result := Some (fn (h ! p))\<rparr>])"
        | (fail) c where "\<not> (p < length h \<and> result (h ! p) = None)"
            "invoke p h = Inl (future_error c)"
  by (cases "p < length h"; cases "result (h ! p)") (auto simp: invoke_def)

lemma stepE [consumes 1, case_names enq rej sleep wake deq exit exec_ok exec_fail stop notify
    join nojoin destroy]:
  assumes "step a s = Inr (ev, s1)"
  obtains
    (enq) f where "alive s" "a = Enqueue f" "\<not> stop s" "ev = Enqueued (length (heap s))"
      "s1 = s\<lparr>heap := heap s @ [\<lparr>fn = f, result = None\<rparr>], tasks := tasks s @ [length (heap s)]\<rparr>"
  | (rej) f where "alive s" "a = Enqueue f" "stop s" "ev = Rejected" "s1 = s"
  | (sleep) i where "alive s" "a = Worker i" "i < length (workers s)"
      "pc (workers s ! i) = Idle" "\<not> stop s" "tasks s = []" "ev = Slept i"
      "s1 = set_pc i Waiting s"
  | (wake) i where "alive s" "a = Wake i" "i < length (workers s)"
      "pc (workers s ! i) = Waiting" "ev = Woken i" "s1 = set_pc i Idle s"
  | (deq) i p rest where "alive s" "a = Worker i" "i < length (workers s)"
      "pc (workers s ! i) = Idle" "tasks s = p # rest" "ev = Dequeued i p"
      "s1 = set_pc i (Executing p) (s\<lparr>tasks := rest\<rparr>)"
  | (exit) i where "alive s" "a = Worker i" "i < length (workers s)"
      "pc (workers s ! i) = Idle" "stop s" "tasks s = []" "ev = Exited i"
      "s1 = set_pc i Terminated s"
  | (exec_ok) i p where "alive s" "a = Worker i" "i < length (workers s)"
      "pc (workers s ! i) = Executing p" "p < length (heap s)" "result (heap s ! p) = None"
      "ev = Executed i p"
      "s1 = set_pc i Idle (s\<lparr>heap := (heap s)[p := (heap s ! p)\<lparr>result := Some (fn (heap s ! p))\<rparr>]\<rparr>)"
  | (exec_fail) i p l where "alive s" "a = Worker i" "i < length (workers s)"
      "pc (workers s ! i) = Executing p" "\<not> (p < length (heap s) \<and> result (heap s ! p) = None)"
      "ev = Executed i p" "s1 = set_pc i Idle (s\<lparr>cerr := cerr s @ [l]\<rparr>)"
  | (stop) "alive s" "a = Stop" "ev = Stopped" "s1 = s\<lparr>stop := True\<rparr>"
  | (notify) "alive s" "a = Notify_all" "stop s" "ev = Notified_all" "s1 = dtor_notify s"
  | (join) i where "alive s" "a = Join i" "stop s" "i < length (workers s)"
      "list_all (\<lambda>w. \<not> joinable w) (take i (workers s))"
      "joinable (workers s ! i)" "pc (workers s ! i) = Terminated" "ev = Joined i"
      "s1 = s\<lparr>workers := (workers s)[i := (workers s ! i)\<lparr>joinable := False\<rparr>]\<rparr>"
  | (nojoin) i where "alive s" "a = Join i" "stop s" "i < length (workers s)"
      "\<not> joinable (workers s ! i)" "ev = Not_joinable i" "s1 = s"
  | (destroy) "alive s" "a = Destroy" "stop s" "list_all (\<lambda>w. \<not> joinable w) (workers s)"
      "ev = Destroyed" "s1 = s\<lparr>heap := fold abandon (tasks s) (heap s), alive := False\<rparr>"
proof -
  from assms have al: "alive s" by (auto simp: step_def split: if_splits)
  show thesis
  proof (cases a)
    case (Enqueue f)
    show ?thesis
    proof (cases "stop s")
      case True
      with assms al Enqueue show ?thesis
        by (intro rej[of f]) (auto simp: step_def enqueue_stop)
    next
      case False
      with assms al Enqueue show ?thesis
        by (intro enq[of f]) (auto simp: step_def enqueue_run)
    qed
  next
    case (Worker i)
    with assms al have w: "worker i s = Inr (ev, s1)" by (simp add: step_def)
    then have i: "i < length (workers s)" by (auto simp: worker_def split: if_splits)
    show ?thesis
    proof (cases "pc (workers s ! i)")
      case Idle
      with w i have ww: "worker_wait i s = Inr (ev, s1)" by (simp add: worker_def)
      show ?thesis
      proof (cases "tasks s")
        case Nil
        show ?thesis
        proof (cases "stop s")
          case True
          with Nil ww al Worker i Idle show ?thesis
            by (intro exit[of i]) (auto simp: worker_wait_def split: if_splits)
        next
          case False
          with Nil ww al Worker i Idle show ?thesis
            by (intro sleep[of i]) (auto simp: worker_wait_def split: if_splits)
        qed
      next
        case (Cons p rest)
        with ww al Worker i Idle show ?thesis
          by (intro deq[of i p rest]) (auto simp: worker_wait_def split: if_splits)
      qed
    next
      case (Executing p)
      with w i have wr: "worker_run i p s = Inr (ev, s1)" by (simp add: worker_def)
      show ?thesis
      proof (cases rule: invoke_cases[of p "heap s"])
        case ok
        with wr al Worker i Executing show ?thesis
          by (intro exec_ok[of i p]) (auto simp: worker_run_def)
      next
        case (fail c)
        with wr al Worker i Executing show ?thesis
          by (intro exec_fail[of i p "Task_error (future_error c)"]) (auto simp: worker_run_def)
      qed
    next
      case Waiting
      with w i show ?thesis by (simp add: worker_def)
    next
      case Terminated
      with w i show ?thesis by (simp add: worker_def)
    qed
  next
    case (Wake i)
    with assms al show ?thesis
      by (intro wake[of i]) (auto simp: step_def wake_def split: if_splits)
  next
    case Stop
    with assms al show ?thesis by (intro stop) (auto simp: step_def dtor_stop_def)
  next
    case Notify_all
    with assms al show ?thesis by (intro notify) (auto simp: step_def split: if_splits)
  next
    case (Join i)
    with assms al have j: "dtor_join i s = Inr (ev, s1)" by (simp add: step_def)
    show ?thesis
    proof (cases "joinable (workers s ! i)")
      case True
      with j al Join show ?thesis
        by (intro join[of i]) (auto simp: dtor_join_def split: if_splits)
    next
      case False
      with j al Join show ?thesis
        by (intro nojoin[of i]) (auto simp: dtor_join_def split: if_splits)
    qed
  next
    case Destroy
    with assms al show ?thesis
      by (intro destroy) (auto simp: step_def dtor_members_def split: if_splits)
  qed
qed

lemma enqs_append: "enqs (xs @ ys) = enqs xs @ enqs ys"
  by (induction xs rule: enqs.induct) auto

lemma deqs_append: "deqs (xs @ ys) = deqs xs @ deqs ys"
  by (induction xs rule: deqs.induct) auto

lemma execs_append: "execs (xs @ ys) = execs xs @ execs ys"
  by (induction xs rule: execs.induct) auto

lemma mset_concat_update:
  "i < length ws \<Longrightarrow>
     mset (concat (map f (ws[i := w]))) + mset (f (ws ! i)) = mset (concat (map f ws)) + mset (f w)"
proof (induction ws arbitrary: i)
  case Nil
  then show ?case by simp
next
  case (Cons a ws)
  then show ?case by (cases i) (auto simp: ac_simps)
qed

lemma executing_set_pc:
  "i < length (workers s) \<Longrightarrow>
     mset (executing (set_pc i c s)) + mset (held (pc (workers s ! i)))
       = mset (executing s) + mset (held c)"
  using mset_concat_update[of i "workers s" "\<lambda>w. held (pc w)" "(workers s ! i)\<lparr>pc := c\<rparr>"]
  by (simp add: executing_def set_pc_def)

lemma executing_iff: "p \<in> set (executing s) \<longleftrightarrow> (\<exists>w \<in> set (workers s). pc w = Executing p)"
proof -
  have "\<And>c. p \<in> set (held c) \<longleftrightarrow> c = Executing p"
    by (case_tac c) auto
  then show ?thesis by (auto simp: executing_def)
qed

lemma executing_joinable [simp]:
  "executing (s\<lparr>workers := (workers s)[i := (workers s ! i)\<lparr>joinable := b\<rparr>]\<rparr>) = executing s"
proof -
  have "map (\<lambda>w. held (pc w)) ((workers s)[i := (workers s ! i)\<lparr>joinable := b\<rparr>])
          = (map (\<lambda>w. held (pc w)) (workers s))[i := held (pc (workers s ! i))]"
    by (simp add: map_update)
  also have "\<dots> = map (\<lambda>w. held (pc w)) (workers s)"
    by (cases "i < length (workers s)") (simp_all add: list_update_same_conv list_update_beyond)
  finally show ?thesis by (simp add: executing_def)
qed

lemma executing_simps [simp]:
  "executing (s\<lparr>tasks := t\<rparr>) = executing s"
  "executing (s\<lparr>heap := h\<rparr>) = executing s"
  "executing (s\<lparr>stop := b\<rparr>) = executing s"
  "executing (s\<lparr>alive := b\<rparr>) = executing s"
  "executing (s\<lparr>cerr := l\<rparr>) = executing s"
  by (simp_all add: executing_def)

lemma set_pc_simps [simp]:
  "tasks (set_pc i c s) = tasks s"
  "heap (set_pc i c s) = heap s"
  "stop (set_pc i c s) = stop s"
  "alive (set_pc i c s) = alive s"
  "cerr (set_pc i c s) = cerr s"
  "length (workers (set_pc i c s)) = length (workers s)"
  "workers (set_pc i c s) = (workers s)[i := (workers s ! i)\<lparr>pc := c\<rparr>]"
  by (simp_all add: set_pc_def)

lemma wake_up_simps [simp]:
  "joinable (wake_up w) = joinable w"
  "held (pc (wake_up w)) = held (pc w)"
  "pc (wake_up w) = Terminated \<longleftrightarrow> pc w = Terminated"
  "pc (wake_up w) = Executing p \<longleftrightarrow> pc w = Executing p"
  "pc (wake_up w) \<noteq> Waiting"
  by (simp_all add: wake_up_def)

lemma dtor_notify_simps [simp]:
  "tasks (dtor_notify s) = tasks s"
  "heap (dtor_notify s) = heap s"
  "stop (dtor_notify s) = stop s"
  "alive (dtor_notify s) = alive s"
  "cerr (dtor_notify s) = cerr s"
  "workers (dtor_notify s) = map wake_up (workers s)"
  "executing (dtor_notify s) = executing s"
  by (simp_all add: dtor_notify_def executing_def comp_def)

lemma abandon_props:
  "length (abandon q h) = length h"
  "fn (abandon q h ! p) = fn (h ! p)"
  "result (h ! p) = Some r \<Longrightarrow> result (abandon q h ! p) = Some r"
  by (auto simp: abandon_def nth_list_update split: option.splits)

lemma fold_abandon_props:
  "length (fold abandon qs h) = length h"
  "fn (fold abandon qs h ! p) = fn (h ! p)"
  "result (h ! p) = Some r \<Longrightarrow> result (fold abandon qs h ! p) = Some r"
  by (induction qs arbitrary: h) (simp_all add: abandon_props)

lemma mset_upt_Suc: "mset [0..<Suc n] = add_mset n (mset [0..<n])"
  by (simp del: mset_upt)

lemma inv_own_bound:
  assumes "inv_own tr s" "p \<in> set (executing s) \<or> p \<in> set (tasks s) \<or> p \<in> snd ` set (execs tr)"
  shows "p < length (heap s)"
proof -
  from assms(2) have "p \<in># mset (map snd (execs tr)) + mset (executing s) + mset (tasks s)"
    by auto
  with assms(1) have "p \<in># mset [0..<length (heap s)]" by (simp only: inv_own_def)
  then show ?thesis by simp
qed

lemma inv_own_distinct:
  assumes "inv_own tr s"
  shows "distinct (map snd (execs tr) @ executing s @ tasks s)"
proof -
  have "mset (map snd (execs tr) @ executing s @ tasks s) = mset [0..<length (heap s)]"
    using assms by (simp only: inv_own_def mset_append ac_simps)
  then show ?thesis
    by (metis distinct_upt mset_eq_imp_distinct_iff)
qed

lemma step_inv_own:
  assumes "inv_own tr s" "step a s = Inr (ev, s1)"
  shows "inv_own (tr @ [ev]) s1"
  using assms(2)
proof (cases rule: stepE)
  case (enq f)
  have "\<forall>p \<in> set (executing s @ tasks s) \<union> set (map snd (execs tr)). p < length (heap s)"
    using inv_own_bound[OF assms(1)] by auto
  with assms(1) enq show ?thesis
    by (auto simp: inv_own_def execs_append nth_append mset_upt_Suc simp del: mset_upt upt_Suc)
next
  case (rej f)
  with assms(1) show ?thesis by (simp add: inv_own_def execs_append)
next
  case (sleep i)
  from executing_set_pc[OF sleep(3), of Waiting] sleep
  have m: "mset (executing s1) = mset (executing s)"
    by simp
  then have "set (executing s1) = set (executing s)" by (metis set_mset_mset)
  with assms(1) sleep m show ?thesis
    by (auto simp: inv_own_def execs_append simp del: mset_upt)
next
  case (wake i)
  from executing_set_pc[OF wake(3), of Idle] wake
  have m: "mset (executing s1) = mset (executing s)"
    by simp
  then have "set (executing s1) = set (executing s)" by (metis set_mset_mset)
  with assms(1) wake m show ?thesis
    by (auto simp: inv_own_def execs_append simp del: mset_upt)
next
  case notify
  with assms(1) show ?thesis by (simp add: inv_own_def execs_append)
next
  case (deq i p rest)
  from executing_set_pc[OF deq(3), of "Executing p"] deq
  have m: "mset (executing s1) = add_mset p (mset (executing s))"
    by (simp add: set_pc_def executing_def)
  then have "set (executing s1) = insert p (set (executing s))"
    by (metis set_mset_mset set_mset_add_mset_insert)
  with m assms(1) deq show ?thesis
    by (auto simp: inv_own_def execs_append simp del: mset_upt)
next
  case (exit i)
  from executing_set_pc[OF exit(3), of Terminated] exit
  have "mset (executing s1) = mset (executing s)"
    by simp
  then have "set (executing s1) = set (executing s)" by (metis set_mset_mset)
  with assms(1) exit \<open>mset (executing s1) = mset (executing s)\<close> show ?thesis
    by (auto simp: inv_own_def execs_append simp del: mset_upt)
next
  case (exec_ok i p)
  from executing_set_pc[OF exec_ok(3), of Idle] exec_ok
  have m: "add_mset p (mset (executing s1)) = mset (executing s)"
    by (simp add: set_pc_def executing_def)
  have d: "distinct (map snd (execs tr) @ executing s @ tasks s)"
    by (rule inv_own_distinct[OF assms(1)])
  from m have pin: "p \<in> set (executing s)" by (metis set_mset_mset union_single_eq_member)
  from m have sub: "set (executing s1) \<subseteq> set (executing s)"
    by (metis set_mset_mset insert_iff set_mset_add_mset_insert subsetI)
  from m d have pnot: "p \<notin> set (executing s1)"
    by (metis distinct_append distinct.simps(2) mset_eq_imp_distinct_iff mset.simps(2))
  from d pin have pnot2: "p \<notin> set (tasks s)" "p \<notin> set (map snd (execs tr))" by auto
  have 1: "mset (map snd (execs (tr @ [ev]))) + mset (executing s1) + mset (tasks s1)
             = mset [0..<length (heap s1)]"
    using assms(1) exec_ok m[symmetric] by (simp add: inv_own_def execs_append del: mset_upt)
  have 2: "\<forall>q \<in> set (executing s1 @ tasks s1). result (heap s1 ! q) = None"
    using assms(1) exec_ok sub pnot pnot2 by (auto simp: inv_own_def nth_list_update)
  have 3: "\<forall>q \<in> set (map snd (execs (tr @ [ev]))). result (heap s1 ! q) = Some (fn (heap s1 ! q))"
    using assms(1) exec_ok by (auto simp: inv_own_def execs_append nth_list_update)
  from 1 2 3 assms(1) exec_ok show ?thesis by (simp add: inv_own_def)
next
  case (exec_fail i p l)
  then have "p \<in> set (executing s)" by (auto simp: executing_iff)
  with assms(1) exec_fail inv_own_bound[OF assms(1), of p] show ?thesis
    by (auto simp: inv_own_def)
next
  case stop
  with assms(1) show ?thesis by (simp add: inv_own_def execs_append)
next
  case (join i)
  with assms(1) show ?thesis by (simp add: inv_own_def execs_append)
next
  case (nojoin i)
  with assms(1) show ?thesis by (simp add: inv_own_def execs_append)
next
  case destroy
  with assms(1) show ?thesis
    by (auto simp: inv_own_def execs_append fold_abandon_props simp del: mset_upt)
qed

lemma in_set_update: "w \<in> set (ws[i := v]) \<Longrightarrow> w \<in> set ws \<or> w = v"
  using set_update_subset_insert[of ws i v] by auto

lemma joined_set_pc:
  assumes "\<forall>w \<in> set ws. \<not> joinable w \<longrightarrow> pc w = Terminated"
    and "i < length ws" "pc (ws ! i) \<noteq> Terminated"
  shows "\<forall>w \<in> set (ws[i := (ws ! i)\<lparr>pc := c\<rparr>]). \<not> joinable w \<longrightarrow> pc w = Terminated"
proof (intro ballI impI)
  fix w assume w: "w \<in> set (ws[i := (ws ! i)\<lparr>pc := c\<rparr>])" "\<not> joinable w"
  from assms have "joinable (ws ! i)" by (auto dest: nth_mem)
  with w assms(1) in_set_update[OF w(1)] show "pc w = Terminated" by auto
qed

lemma terminated_set_pc:
  assumes "\<exists>w \<in> set (ws[i := (ws ! i)\<lparr>pc := c\<rparr>]). pc w = Terminated" "c \<noteq> Terminated"
  shows "\<exists>w \<in> set ws. pc w = Terminated"
proof -
  from assms(1) obtain w where w: "w \<in> set (ws[i := (ws ! i)\<lparr>pc := c\<rparr>])" "pc w = Terminated"
    by blast
  with assms(2) in_set_update[OF w(1)] show ?thesis by auto
qed

lemma step_inv_life:
  assumes "inv_life s" "step a s = Inr (ev, s1)"
  shows "inv_life s1"
  using assms(2)
proof (cases rule: stepE)
  case (enq f)
  with assms(1) show ?thesis by (auto simp: inv_life_def)
next
  case (rej f)
  with assms(1) show ?thesis by simp
next
  case (sleep i)
  have "(\<exists>w \<in> set (workers s1). pc w = Terminated) \<longrightarrow> (\<exists>w \<in> set (workers s). pc w = Terminated)"
    using terminated_set_pc[of "workers s" i Waiting] sleep by auto
  moreover have "\<forall>w \<in> set (workers s1). \<not> joinable w \<longrightarrow> pc w = Terminated"
    using joined_set_pc[of "workers s" i Waiting] assms(1) sleep by (simp add: inv_life_def)
  ultimately show ?thesis using assms(1) sleep by (simp add: inv_life_def)
next
  case (wake i)
  have "(\<exists>w \<in> set (workers s1). pc w = Terminated) \<longrightarrow> (\<exists>w \<in> set (workers s). pc w = Terminated)"
    using terminated_set_pc[of "workers s" i Idle] wake by auto
  moreover have "\<forall>w \<in> set (workers s1). \<not> joinable w \<longrightarrow> pc w = Terminated"
    using joined_set_pc[of "workers s" i Idle] assms(1) wake by (simp add: inv_life_def)
  ultimately show ?thesis using assms(1) wake by (simp add: inv_life_def)
next
  case notify
  with assms(1) show ?thesis by (auto simp: inv_life_def)
next
  case (deq i p rest)
  have nt: "\<not> (\<exists>w \<in> set (workers s). pc w = Terminated)"
    using assms(1) deq by (auto simp: inv_life_def)
  have "\<not> (\<exists>w \<in> set (workers s1). pc w = Terminated)"
    using nt terminated_set_pc[of "workers s" i "Executing p"] deq by auto
  moreover have "\<forall>w \<in> set (workers s1). \<not> joinable w \<longrightarrow> pc w = Terminated"
    using joined_set_pc[of "workers s" i "Executing p"] assms(1) deq by (simp add: inv_life_def)
  ultimately show ?thesis using deq by (simp add: inv_life_def)
next
  case (exit i)
  have "\<forall>w \<in> set (workers s1). \<not> joinable w \<longrightarrow> pc w = Terminated"
    using joined_set_pc[of "workers s" i Terminated] assms(1) exit by (simp add: inv_life_def)
  with exit show ?thesis by (simp add: inv_life_def)
next
  case (exec_ok i p)
  have "(\<exists>w \<in> set (workers s1). pc w = Terminated) \<longrightarrow> (\<exists>w \<in> set (workers s). pc w = Terminated)"
    using terminated_set_pc[of "workers s" i Idle] exec_ok by auto
  moreover have "\<forall>w \<in> set (workers s1). \<not> joinable w \<longrightarrow> pc w = Terminated"
    using joined_set_pc[of "workers s" i Idle] assms(1) exec_ok by (simp add: inv_life_def)
  ultimately show ?thesis using assms(1) exec_ok by (simp add: inv_life_def)
next
  case (exec_fail i p l)
  have "(\<exists>w \<in> set (workers s1). pc w = Terminated) \<longrightarrow> (\<exists>w \<in> set (workers s). pc w = Terminated)"
    using terminated_set_pc[of "workers s" i Idle] exec_fail by auto
  moreover have "\<forall>w \<in> set (workers s1). \<not> joinable w \<longrightarrow> pc w = Terminated"
    using joined_set_pc[of "workers s" i Idle] assms(1) exec_fail by (simp add: inv_life_def)
  ultimately show ?thesis using assms(1) exec_fail by (simp add: inv_life_def)
next
  case stop
  with assms(1) show ?thesis by (auto simp: inv_life_def)
next
  case (join i)
  have "\<forall>w \<in> set (workers s1). \<not> joinable w \<longrightarrow> pc w = Terminated"
  proof (intro ballI impI)
    fix w assume w: "w \<in> set (workers s1)" "\<not> joinable w"
    with join have "w \<in> set (workers s) \<or> w = (workers s ! i)\<lparr>joinable := False\<rparr>"
      by (auto dest: in_set_update)
    with w join assms(1) show "pc w = Terminated" by (auto simp: inv_life_def)
  qed
  moreover from join have "\<exists>w \<in> set (workers s). pc w = Terminated" by (auto dest: nth_mem)
  ultimately show ?thesis using assms(1) join by (simp add: inv_life_def)
next
  case (nojoin i)
  with assms(1) show ?thesis by simp
next
  case destroy
  with assms(1) show ?thesis by (auto simp: inv_life_def list_all_iff)
qed

lemma executing_single:
  "length (workers s) = 1 \<Longrightarrow> executing s = held (pc (workers s ! 0))"
  by (cases "workers s") (auto simp: executing_def)

lemma step_inv_fifo:
  assumes "inv_fifo tr s" "step a s = Inr (ev, s1)"
  shows "inv_fifo (tr @ [ev]) s1"
  using assms(2)
proof (cases rule: stepE)
  case (enq f)
  with assms(1) show ?thesis
    by (auto simp: inv_fifo_def enqs_append deqs_append execs_append)
next
  case (rej f)
  with assms(1) show ?thesis
    by (auto simp: inv_fifo_def enqs_append deqs_append execs_append)
next
  case (sleep i)
  have "length (workers s) = 1 \<Longrightarrow> executing s = [] \<and> executing s1 = []"
    using sleep by (auto simp: executing_single)
  with assms(1) sleep show ?thesis
    by (auto simp: inv_fifo_def enqs_append deqs_append execs_append nth_list_update
             split: if_splits)
next
  case (wake i)
  have "length (workers s) = 1 \<Longrightarrow> executing s = [] \<and> executing s1 = []"
    using wake by (auto simp: executing_single)
  with assms(1) wake show ?thesis
    by (auto simp: inv_fifo_def enqs_append deqs_append execs_append nth_list_update
             split: if_splits)
next
  case notify
  with assms(1) show ?thesis
    by (auto simp: inv_fifo_def enqs_append deqs_append execs_append)
next
  case (deq i p rest)
  have "length (workers s) = 1 \<Longrightarrow> executing s = [] \<and> executing s1 = [p]"
    using deq by (auto simp: executing_single)
  with assms(1) deq show ?thesis
    by (auto simp: inv_fifo_def enqs_append deqs_append execs_append nth_list_update)
next
  case (exit i)
  have "length (workers s) = 1 \<Longrightarrow> executing s = [] \<and> executing s1 = []"
    using exit by (auto simp: executing_single)
  with assms(1) exit show ?thesis
    by (auto simp: inv_fifo_def enqs_append deqs_append execs_append nth_list_update
             split: if_splits)
next
  case (exec_ok i p)
  have "length (workers s) = 1 \<Longrightarrow> executing s = [p] \<and> executing s1 = []"
    using exec_ok by (auto simp: executing_single)
  with assms(1) exec_ok show ?thesis
    by (auto simp: inv_fifo_def enqs_append deqs_append execs_append nth_list_update
             split: if_splits)
next
  case (exec_fail i p l)
  have "length (workers s) = 1 \<Longrightarrow> executing s = [p] \<and> executing s1 = []"
    using exec_fail by (auto simp: executing_single)
  with assms(1) exec_fail show ?thesis
    by (auto simp: inv_fifo_def enqs_append deqs_append execs_append nth_list_update
             split: if_splits)
next
  case stop
  with assms(1) show ?thesis
    by (auto simp: inv_fifo_def enqs_append deqs_append execs_append)
next
  case (join i)
  with assms(1) show ?thesis
    by (auto simp: inv_fifo_def enqs_append deqs_append execs_append nth_list_update
             split: if_splits)
next
  case (nojoin i)
  with assms(1) show ?thesis
    by (auto simp: inv_fifo_def enqs_append deqs_append execs_append)
next
  case destroy
  with assms(1) show ?thesis
    by (auto simp: inv_fifo_def enqs_append deqs_append execs_append fold_abandon_props)
qed

lemma run_append_trace:
  "run acts s = Inr (tr, s') \<Longrightarrow> P [] s \<Longrightarrow>
   (\<And>tr0 s0 a ev s1. P tr0 s0 \<Longrightarrow> step a s0 = Inr (ev, s1) \<Longrightarrow> P (tr0 @ [ev]) s1) \<Longrightarrow> P tr s'"
proof -
  assume r: "run acts s = Inr (tr, s')" and p0: "P [] s"
    and st: "\<And>tr0 s0 a ev s1. P tr0 s0 \<Longrightarrow> step a s0 = Inr (ev, s1) \<Longrightarrow> P (tr0 @ [ev]) s1"
  have "\<And>tr0 s tr s'. P tr0 s \<Longrightarrow> run acts s = Inr (tr, s') \<Longrightarrow> P (tr0 @ tr) s'"
  proof (induction acts)
    case Nil
    then show ?case by simp
  next
    case (Cons a acts)
    from Cons.prems(2) obtain ev s1 tr1 where
      a: "step a s = Inr (ev, s1)" and b: "run acts s1 = Inr (tr1, s')" and c: "tr = ev # tr1"
      by (auto split: sum.splits prod.splits)
    from st[OF Cons.prems(1) a] have "P (tr0 @ [ev]) s1" .
    from Cons.IH[OF this b] c show ?case by simp
  qed
  from this[OF p0 r] show ?thesis by simp
qed

lemma init_inv_own: "inv_own [] (ThreadPool n)"
  by (simp add: inv_own_def ThreadPool_def executing_def)

lemma init_inv_life: "inv_life (ThreadPool n)"
  by (simp add: inv_life_def ThreadPool_def)

lemma init_inv_fifo: "inv_fifo [] (ThreadPool n)"
  by (simp add: inv_fifo_def ThreadPool_def executing_def)

lemma run_inv_own: "run acts (ThreadPool n) = Inr (tr, s) \<Longrightarrow> inv_own tr s"
  by (erule run_append_trace[where P = inv_own]) (auto intro: init_inv_own step_inv_own)

lemma run_inv_fifo: "run acts (ThreadPool n) = Inr (tr, s) \<Longrightarrow> inv_fifo tr s"
  by (erule run_append_trace[where P = inv_fifo]) (auto intro: init_inv_fifo step_inv_fifo)

lemma run_inv_life: "run acts (ThreadPool n) = Inr (tr, s) \<Longrightarrow> inv_life s"
  by (erule run_append_trace[where P = "\<lambda>tr. inv_life"]) (auto intro: init_inv_life step_inv_life)

subsection \<open>Schedules\<close>

lemmas eval_defs = ThreadPool_def step_def enqueue_def Let_def worker_def worker_wait_def
  worker_run_def invoke_def abandon_def dtor_stop_def dtor_join_def dtor_members_def set_pc_def
  executing_def wake_def dtor_notify_def wake_up_def eval_nat_numeral

lemma step_stop: "step a s = Inr (ev, s1) \<Longrightarrow> stop s1 \<longleftrightarrow> stop s \<or> a = Stop"
  by (cases rule: stepE) auto

lemma run_stop: "run acts s = Inr (tr, s') \<Longrightarrow> stop s' \<longleftrightarrow> stop s \<or> Stop \<in> set acts"
proof (induction acts arbitrary: s tr)
  case Nil
  then show ?case by simp
next
  case (Cons a acts)
  from Cons.prems obtain ev s1 tr1 where
    a: "step a s = Inr (ev, s1)" and b: "run acts s1 = Inr (tr1, s')"
    by (auto split: sum.splits prod.splits)
  from Cons.IH[OF b] step_stop[OF a] show ?case by auto
qed

lemma step_length_workers: "step a s = Inr (ev, s1) \<Longrightarrow> length (workers s1) = length (workers s)"
  by (cases rule: stepE) auto

lemma run_length_workers: "run acts s = Inr (tr, s') \<Longrightarrow> length (workers s') = length (workers s)"
proof (induction acts arbitrary: s tr)
  case Nil
  then show ?case by simp
next
  case (Cons a acts)
  from Cons.prems obtain ev s1 tr1 where
    a: "step a s = Inr (ev, s1)" and b: "run acts s1 = Inr (tr1, s')"
    by (auto split: sum.splits prod.splits)
  from Cons.IH[OF b] step_length_workers[OF a] show ?case by simp
qed

lemma length_workers_ThreadPool: "length (workers (ThreadPool n)) = n"
  by (simp add: ThreadPool_def)

lemma no_workers_no_execution:
  assumes "run acts (ThreadPool 0) = Inr (tr, s)"
  shows "workers s = [] \<and> execs tr = []"
proof (rule run_append_trace[OF assms, where P = "\<lambda>tr s. workers s = [] \<and> execs tr = []"])
  show "workers (ThreadPool 0) = [] \<and> execs [] = []" by (simp add: ThreadPool_def)
next
  fix tr0 :: "event list" and s0 s1 :: "'a pool" and a ev
  assume "workers s0 = [] \<and> execs tr0 = []" "step a s0 = Inr (ev, s1)"
  from this(2,1) show "workers s1 = [] \<and> execs (tr0 @ [ev]) = []"
    by (cases rule: stepE) (auto simp: execs_append dtor_notify_def)
qed

lemma run_append:
  "run (as @ bs) s =
     (case run as s of
        Inl e \<Rightarrow> Inl e
      | Inr (tr, s1) \<Rightarrow>
          (case run bs s1 of Inl e \<Rightarrow> Inl e | Inr (tr', s2) \<Rightarrow> Inr (tr @ tr', s2)))"
  by (induction as arbitrary: s) (auto split: sum.splits prod.splits)

lemma step_heap_stable:
  assumes "step a s = Inr (ev, s1)" "p < length (heap s)"
  shows "p < length (heap s1) \<and> fn (heap s1 ! p) = fn (heap s ! p)
         \<and> (result (heap s ! p) = Some r \<longrightarrow> result (heap s1 ! p) = Some r)"
  using assms
  by (cases rule: stepE) (auto simp: nth_append nth_list_update fold_abandon_props)

lemma run_heap_stable:
  assumes "run acts s = Inr (tr, s')" "p < length (heap s)"
  shows "p < length (heap s') \<and> fn (heap s' ! p) = fn (heap s ! p)
         \<and> (result (heap s ! p) = Some r \<longrightarrow> result (heap s' ! p) = Some r)"
  using assms
proof (induction acts arbitrary: s tr)
  case Nil
  then show ?case by simp
next
  case (Cons a acts)
  from Cons.prems obtain ev s1 tr1 where
    a: "step a s = Inr (ev, s1)" and b: "run acts s1 = Inr (tr1, s')"
    by (auto split: sum.splits prod.splits)
  from step_heap_stable[OF a Cons.prems(2), of r] Cons.IH[OF b] show ?case by auto
qed

lemma step_Enqueued:
  assumes "step (Enqueue f) s = Inr (Enqueued p, s1)"
  shows "p = length (heap s) \<and> p < length (heap s1) \<and> fn (heap s1 ! p) = f"
  using assms by (cases rule: stepE) auto

lemma alive_of_active:
  assumes "inv_life s" "i < length (workers s)" "pc (workers s ! i) \<noteq> Terminated"
  shows "alive s \<and> joinable (workers s ! i)"
  using assms by (auto simp: inv_life_def dest: nth_mem)

lemma executing_nil: "\<forall>w \<in> set (workers s). pc w = Terminated \<Longrightarrow> executing s = []"
proof -
  assume a: "\<forall>w \<in> set (workers s). pc w = Terminated"
  have "q \<notin> set (executing s)" for q
    using a by (auto simp: executing_iff)
  then show ?thesis by (cases "executing s") auto
qed

lemma inv_own_executed:
  "inv_own tr s \<Longrightarrow> p \<in> set (map snd (execs tr)) \<Longrightarrow> result (heap s ! p) = Some (fn (heap s ! p))"
  unfolding inv_own_def by blast

lemma inv_own_pending:
  "inv_own tr s \<Longrightarrow> alive s \<Longrightarrow> p \<in> set (executing s @ tasks s) \<Longrightarrow> result (heap s ! p) = None"
  unfolding inv_own_def by blast


lemma step_inv_join:
  assumes "inv_join tr s" "step a s = Inr (ev, s1)"
  shows "inv_join (tr @ [ev]) s1"
  using assms(2)
proof (cases rule: stepE)
  case (join i)
  with assms(1) show ?thesis by (auto simp: inv_join_def nth_list_update)
qed (use assms(1) in \<open>auto simp: inv_join_def nth_list_update\<close>)

lemma run_inv_join: "run acts (ThreadPool n) = Inr (tr, s) \<Longrightarrow> inv_join tr s"
proof (erule run_append_trace[where P = inv_join])
  show "inv_join [] (ThreadPool n)" by (simp add: inv_join_def)
qed (rule step_inv_join)

lemma joins_noop:
  assumes "alive s" "stop s" "\<forall>w \<in> set (workers s). \<not> joinable w"
  shows "k \<le> length (workers s) \<Longrightarrow> run (map Join [0..<k]) s = Inr (map Not_joinable [0..<k], s)"
proof (induction k)
  case 0
  then show ?case by simp
next
  case (Suc k)
  have "list_all (\<lambda>w. \<not> joinable w) (take k (workers s))"
    using assms(3) by (auto simp: list_all_iff dest: in_set_takeD)
  moreover have "\<not> joinable (workers s ! k)"
    using assms(3) Suc.prems by (auto dest: nth_mem)
  ultimately have "step (Join k) s = Inr (Not_joinable k, s)"
    using assms(1,2) Suc.prems by (simp add: step_def dtor_join_def)
  with Suc show ?case by (simp add: run_append)
qed

lemma worker_enabled:
  assumes "alive s" "stop s" "i < length (workers s)"
    and "pc (workers s ! i) \<noteq> Terminated" "pc (workers s ! i) \<noteq> Waiting"
  shows "\<exists>ev s1. step (Worker i) s = Inr (ev, s1)"
proof (cases "pc (workers s ! i)")
  case Idle
  with assms show ?thesis by (simp add: step_def worker_def worker_wait_def)
next
  case (Executing p)
  have "\<exists>ev s1. worker_run i p s = Inr (ev, s1)"
    by (cases rule: invoke_cases[of p "heap s"]) (simp_all add: worker_run_def)
  with assms Executing show ?thesis by (simp add: step_def worker_def)
qed (use assms in simp_all)

lemma step_no_sleep:
  assumes "step a s = Inr (ev, s1)" "stop s" "\<forall>w \<in> set (workers s). pc w \<noteq> Waiting"
  shows "\<forall>w \<in> set (workers s1). pc w \<noteq> Waiting"
  using assms by (cases rule: stepE) (auto dest!: in_set_update)

lemma run_no_sleep:
  assumes "run acts s = Inr (tr, s')" "stop s" "\<forall>w \<in> set (workers s). pc w \<noteq> Waiting"
  shows "\<forall>w \<in> set (workers s'). pc w \<noteq> Waiting"
  using assms
proof (induction acts arbitrary: s tr)
  case Nil
  then show ?case by simp
next
  case (Cons a acts)
  from Cons.prems(1) obtain ev s1 tr1 where
    a: "step a s = Inr (ev, s1)" and b: "run acts s1 = Inr (tr1, s')"
    by (auto split: sum.splits prod.splits)
  from step_stop[OF a] Cons.prems(2) have "stop s1" by simp
  from Cons.IH[OF b this step_no_sleep[OF a Cons.prems(2,3)]] show ?case .
qed

lemma run_dead: "\<not> alive s \<Longrightarrow> run acts s = Inr (tr, s') \<Longrightarrow> tr = [] \<and> s' = s"
  by (cases acts) (auto simp: step_def)

lemma reversed_completion:
  "run [Enqueue (Inr 0), Enqueue (Inr 1), Worker 0, Worker 1, Worker 1, Worker 0]
       (ThreadPool 2 :: int pool)
     = Inr ([Enqueued 0, Enqueued 1, Dequeued 0 0, Dequeued 1 1, Executed 1 1, Executed 0 0],
            \<lparr>workers = [\<lparr>pc = Idle, joinable = True\<rparr>, \<lparr>pc = Idle, joinable = True\<rparr>],
             tasks = [], stop = False, alive = True,
             heap = [\<lparr>fn = Inr 0, result = Some (Inr 0)\<rparr>, \<lparr>fn = Inr 1, result = Some (Inr 1)\<rparr>],
             cerr = []\<rparr>)"
  by (simp add: eval_defs)

subsection \<open>The destructor completes\<close>

lemma worker_finishes:
  assumes "alive s" "i < length (workers s)" "pc (workers s ! i) = Executing p"
  shows "\<exists>s1. step (Worker i) s = Inr (Executed i p, s1)
            \<and> workers s1 = (workers s)[i := (workers s ! i)\<lparr>pc := Idle\<rparr>]
            \<and> tasks s1 = tasks s \<and> stop s1 = stop s \<and> alive s1"
proof (cases rule: invoke_cases[of p "heap s"])
  case ok
  with assms show ?thesis by (simp add: step_def worker_def worker_run_def)
next
  case (fail c)
  with assms show ?thesis by (simp add: step_def worker_def worker_run_def)
qed

lemma worker_drains:
  assumes "alive s" "stop s" "i < length (workers s)" "pc (workers s ! i) = Idle"
  shows "\<exists>tr s'. run (map Worker (replicate (2 * length (tasks s) + 1) i)) s = Inr (tr, s')
            \<and> workers s' = (workers s)[i := (workers s ! i)\<lparr>pc := Terminated\<rparr>]
            \<and> tasks s' = [] \<and> stop s' \<and> alive s'"
  using assms
proof (induction "tasks s" arbitrary: s)
  case Nil
  then have "step (Worker i) s = Inr (Exited i, set_pc i Terminated s)"
    by (simp add: step_def worker_def worker_wait_def)
  with Nil show ?case by simp
next
  case (Cons p rest)
  let ?s1 = "set_pc i (Executing p) (s\<lparr>tasks := rest\<rparr>)"
  from Cons.hyps(2)[symmetric] Cons.prems
  have 1: "step (Worker i) s = Inr (Dequeued i p, ?s1)"
    by (simp add: step_def worker_def worker_wait_def)
  have "alive ?s1" "i < length (workers ?s1)" "pc (workers ?s1 ! i) = Executing p"
    using Cons.prems by simp_all
  from worker_finishes[OF this] obtain s2 where
    2: "step (Worker i) ?s1 = Inr (Executed i p, s2)"
    and w2: "workers s2 = (workers ?s1)[i := (workers ?s1 ! i)\<lparr>pc := Idle\<rparr>]"
    and r2: "tasks s2 = tasks ?s1" "stop s2 = stop ?s1" "alive s2"
    by blast
  from w2 Cons.prems have ws: "workers s2 = workers s"
    by (simp add: list_update_same_conv)
  have "rest = tasks s2" using r2 by simp
  from Cons.hyps(1)[OF this] r2 ws Cons.prems
  obtain tr s' where
    3: "run (map Worker (replicate (2 * length (tasks s2) + 1) i)) s2 = Inr (tr, s')"
    and e: "workers s' = (workers s2)[i := (workers s2 ! i)\<lparr>pc := Terminated\<rparr>]"
       "tasks s' = []" "stop s'" "alive s'"
    by auto
  have "length (tasks s) = Suc (length (tasks s2))"
    using Cons.hyps(2)[symmetric] r2 by simp
  then have "replicate (2 * length (tasks s) + 1) i
               = i # i # replicate (2 * length (tasks s2) + 1) i"
    by simp
  with 1 2 3 have "run (map Worker (replicate (2 * length (tasks s) + 1) i)) s
                     = Inr (Dequeued i p # Executed i p # tr, s')"
    by simp
  with e ws show ?case by auto
qed

lemma workers_terminate:
  assumes "alive s" "stop s" "\<forall>w \<in> set (workers s). pc w \<noteq> Waiting"
  shows "k \<le> length (workers s) \<Longrightarrow>
         \<exists>ws tr s'. run (map Worker ws) s = Inr (tr, s')
            \<and> (\<forall>i < k. pc (workers s' ! i) = Terminated)
            \<and> length (workers s') = length (workers s)
            \<and> stop s' \<and> alive s'"
proof (induction k)
  case 0
  have "run (map Worker []) s = Inr ([], s)" by simp
  with assms show ?case by (intro exI[of _ "[]"] exI[of _ s]) simp
next
  case (Suc k)
  then obtain ws tr s1 where
    r: "run (map Worker ws) s = Inr (tr, s1)"
    and t: "\<forall>i < k. pc (workers s1 ! i) = Terminated"
    and l: "length (workers s1) = length (workers s)" and a: "stop s1" "alive s1"
    by auto
  from Suc.prems l have k: "k < length (workers s1)" by simp
  from run_no_sleep[OF r assms(2,3)] k have nw: "pc (workers s1 ! k) \<noteq> Waiting"
    by (auto dest: nth_mem)
  have idle: "\<exists>ws' tr' s'. run (map Worker ws') s2 = Inr (tr', s')
            \<and> (\<forall>i < Suc k. pc (workers s' ! i) = Terminated)
            \<and> length (workers s') = length (workers s)
            \<and> stop s' \<and> alive s'"
    if s2: "alive s2" "stop s2" "length (workers s2) = length (workers s1)"
      "\<forall>i < k. pc (workers s2 ! i) = Terminated" "pc (workers s2 ! k) = Idle" for s2
  proof -
    from s2 k have "k < length (workers s2)" by simp
    from worker_drains[OF s2(1,2) this s2(5)] obtain tr' s' where
      d: "run (map Worker (replicate (2 * length (tasks s2) + 1) k)) s2 = Inr (tr', s')"
      and e: "workers s' = (workers s2)[k := (workers s2 ! k)\<lparr>pc := Terminated\<rparr>]"
        "stop s'" "alive s'"
      by blast
    have "\<forall>i < Suc k. pc (workers s' ! i) = Terminated"
      using e(1) s2(4) \<open>k < length (workers s2)\<close> by (auto simp: nth_list_update less_Suc_eq)
    moreover have "length (workers s') = length (workers s)"
      using e(1) s2(3) l by simp
    ultimately show ?thesis
      using d e(2,3) by blast
  qed
  have "\<exists>ws' tr' s'. run (map Worker ws') s1 = Inr (tr', s')
            \<and> (\<forall>i < Suc k. pc (workers s' ! i) = Terminated)
            \<and> length (workers s') = length (workers s)
            \<and> stop s' \<and> alive s'"
  proof (cases "pc (workers s1 ! k)")
    case Idle
    from idle[OF a(2) a(1) _ t Idle] show ?thesis by simp
  next
    case (Executing p)
    from worker_finishes[OF a(2) k Executing] obtain s2 where
      f: "step (Worker k) s1 = Inr (Executed k p, s2)"
      and w2: "workers s2 = (workers s1)[k := (workers s1 ! k)\<lparr>pc := Idle\<rparr>]"
      and r2: "stop s2 = stop s1" "alive s2"
      by blast
    have "\<forall>i < k. pc (workers s2 ! i) = Terminated" using w2 t by (simp add: nth_list_update)
    moreover have "pc (workers s2 ! k) = Idle" using w2 k by simp
    moreover have "length (workers s2) = length (workers s1)" using w2 by simp
    ultimately obtain ws' tr' s' where
      d: "run (map Worker ws') s2 = Inr (tr', s')"
      and e: "\<forall>i < Suc k. pc (workers s' ! i) = Terminated"
        "length (workers s') = length (workers s)" "stop s'" "alive s'"
      using idle[of s2] r2 a by auto
    from f d have "run (map Worker (k # ws')) s1 = Inr (Executed k p # tr', s')" by simp
    with e show ?thesis by blast
  next
    case Terminated
    have "run (map Worker []) s1 = Inr ([], s1)" by simp
    moreover have "\<forall>i < Suc k. pc (workers s1 ! i) = Terminated"
      using t Terminated by (auto simp: less_Suc_eq)
    ultimately show ?thesis using l a by blast
  next
    case Waiting
    with nw show ?thesis by simp
  qed
  then obtain ws' tr' s' where
    d: "run (map Worker ws') s1 = Inr (tr', s')"
    and e: "\<forall>i < Suc k. pc (workers s' ! i) = Terminated"
      "length (workers s') = length (workers s)" "stop s'" "alive s'"
    by blast
  from r d have "run (map Worker (ws @ ws')) s = Inr (tr @ tr', s')"
    by (simp add: run_append)
  with e show ?case by blast
qed

lemma joins_succeed:
  assumes "alive s" "stop s" "\<forall>w \<in> set (workers s). pc w = Terminated"
  shows "k \<le> length (workers s) \<Longrightarrow>
         \<exists>tr s'. run (map Join [0..<k]) s = Inr (tr, s')
            \<and> (\<forall>i < k. \<not> joinable (workers s' ! i))
            \<and> (\<forall>w \<in> set (workers s'). pc w = Terminated)
            \<and> length (workers s') = length (workers s)
            \<and> stop s' \<and> alive s' \<and> tasks s' = tasks s \<and> heap s' = heap s \<and> cerr s' = cerr s"
proof (induction k)
  case 0
  with assms show ?case by simp
next
  case (Suc k)
  then obtain tr s1 where
    r: "run (map Join [0..<k]) s = Inr (tr, s1)"
    and j: "\<forall>i < k. \<not> joinable (workers s1 ! i)"
    and t: "\<forall>w \<in> set (workers s1). pc w = Terminated"
    and l: "length (workers s1) = length (workers s)"
    and a: "stop s1" "alive s1" "tasks s1 = tasks s" "heap s1 = heap s" "cerr s1 = cerr s"
    by auto
  from Suc.prems l have k: "k < length (workers s1)" by simp
  have la: "list_all (\<lambda>w. \<not> joinable w) (take k (workers s1))"
    using j k by (auto simp: list_all_length)
  from t k have tk: "pc (workers s1 ! k) = Terminated" by (auto dest: nth_mem)
  have "\<exists>ev s'. step (Join k) s1 = Inr (ev, s')
          \<and> (\<forall>i < Suc k. \<not> joinable (workers s' ! i))
          \<and> (\<forall>w \<in> set (workers s'). pc w = Terminated)
          \<and> length (workers s') = length (workers s)
          \<and> stop s' \<and> alive s' \<and> tasks s' = tasks s \<and> heap s' = heap s \<and> cerr s' = cerr s"
  proof (cases "joinable (workers s1 ! k)")
    case False
    with a k la have "step (Join k) s1 = Inr (Not_joinable k, s1)"
      by (simp add: step_def dtor_join_def)
    moreover have "\<forall>i < Suc k. \<not> joinable (workers s1 ! i)"
      using j False by (auto simp: less_Suc_eq)
    ultimately show ?thesis using t l a by blast
  next
    case True
    let ?s' = "s1\<lparr>workers := (workers s1)[k := (workers s1 ! k)\<lparr>joinable := False\<rparr>]\<rparr>"
    from True a k la tk have "step (Join k) s1 = Inr (Joined k, ?s')"
      by (simp add: step_def dtor_join_def)
    moreover have "\<forall>i < Suc k. \<not> joinable (workers ?s' ! i)"
      using j k by (auto simp: less_Suc_eq nth_list_update)
    moreover have "\<forall>w \<in> set (workers ?s'). pc w = Terminated"
    proof
      fix w assume "w \<in> set (workers ?s')"
      then have "w \<in> set (workers s1) \<or> w = (workers s1 ! k)\<lparr>joinable := False\<rparr>"
        by (auto dest: in_set_update)
      with t tk show "pc w = Terminated" by auto
    qed
    ultimately show ?thesis using l a by auto
  qed
  then obtain ev s' where
    st: "step (Join k) s1 = Inr (ev, s')"
    and e: "\<forall>i < Suc k. \<not> joinable (workers s' ! i)"
      "\<forall>w \<in> set (workers s'). pc w = Terminated"
      "length (workers s') = length (workers s)"
      "stop s'" "alive s'" "tasks s' = tasks s" "heap s' = heap s" "cerr s' = cerr s"
    by blast
  from r st have "run (map Join [0..<Suc k]) s = Inr (tr @ [ev], s')"
    by (simp add: run_append)
  with e show ?case by blast
qed

lemma notify_wakes: "\<forall>w \<in> set (workers (dtor_notify s)). pc w \<noteq> Waiting"
  by simp

lemma stop_notify:
  assumes "alive s"
  shows "run [Stop, Notify_all] s = Inr ([Stopped, Notified_all], dtor_notify (dtor_stop s))"
  using assms by (simp add: step_def dtor_stop_def)

lemma destructor_completes:
  assumes "alive s"
  shows "\<exists>ws tr s'.
           run (Stop # Notify_all # map Worker ws @ map Join [0..<length (workers s)] @ [Destroy]) s
             = Inr (tr, s')
           \<and> \<not> alive s'"
proof -
  let ?n = "length (workers s)"
  let ?s1 = "dtor_notify (dtor_stop s)"
  have a1: "alive ?s1" "stop ?s1" "length (workers ?s1) = ?n"
    using assms by (simp_all add: dtor_stop_def)
  from workers_terminate[OF a1(1,2) notify_wakes, of ?n] a1(3) obtain ws tr2 s2 where
    2: "run (map Worker ws) ?s1 = Inr (tr2, s2)"
    and t2: "\<forall>i < ?n. pc (workers s2 ! i) = Terminated"
    and e2: "length (workers s2) = ?n" "stop s2" "alive s2"
    by auto
  from t2 e2(1) have all: "\<forall>w \<in> set (workers s2). pc w = Terminated"
    by (auto simp: in_set_conv_nth)
  from joins_succeed[OF e2(3,2) all, of ?n] e2(1) obtain tr3 s3 where
    3: "run (map Join [0..<?n]) s2 = Inr (tr3, s3)"
    and j3: "\<forall>i < ?n. \<not> joinable (workers s3 ! i)"
    and e3: "length (workers s3) = ?n" "stop s3" "alive s3"
    by auto
  from j3 e3(1) have "list_all (\<lambda>w. \<not> joinable w) (workers s3)"
    by (auto simp: list_all_length)
  with e3 have 4: "run [Destroy] s3
      = Inr ([Destroyed], s3\<lparr>heap := fold abandon (tasks s3) (heap s3), alive := False\<rparr>)"
    by (simp add: step_def dtor_members_def)
  have "run ([Stop, Notify_all] @ map Worker ws @ map Join [0..<?n] @ [Destroy]) s
          = Inr ([Stopped, Notified_all] @ tr2 @ tr3 @ [Destroyed],
                 s3\<lparr>heap := fold abandon (tasks s3) (heap s3), alive := False\<rparr>)"
    unfolding run_append using stop_notify[OF assms] 2 3 4 by simp
  then show ?thesis by force
qed

lemma drain_safety:
  assumes "run acts (ThreadPool n) = Inr (tr, s)"
    and "step (Enqueue f) s = Inr (Enqueued p, s1)"
    and "run acts' s1 = Inr (tr', s')"
  shows "((\<exists>w \<in> set (workers s'). pc w = Terminated) \<longrightarrow>
            stop s' \<and> tasks s' = []
            \<and> (p \<in> set (executing s') \<or> result (heap s' ! p) = Some f))
       \<and> (0 < n \<and> (\<forall>w \<in> set (workers s'). pc w = Terminated) \<longrightarrow>
            result (heap s' ! p) = Some f
            \<and> p \<in> set (map snd (execs (tr @ Enqueued p # tr'))))
       \<and> (0 < n \<longrightarrow> result (heap s' ! p) = None \<or> result (heap s' ! p) = Some f)
       \<and> (\<forall>i s''. step (Worker i) s' = Inr (Exited i, s'') \<longrightarrow> stop s' \<and> tasks s' = [])"
proof -
  let ?T = "tr @ Enqueued p # tr'"
  have r: "run (acts @ Enqueue f # acts') (ThreadPool n) = Inr (?T, s')"
    using assms by (simp add: run_append)
  have own: "inv_own ?T s'" by (rule run_inv_own[OF r])
  have life: "inv_life s'" by (rule run_inv_life[OF r])
  have fifo: "inv_fifo ?T s'" by (rule run_inv_fifo[OF r])
  have len: "length (workers s') = n"
    using run_length_workers[OF r] by (simp add: length_workers_ThreadPool)
  have "p \<in> set (enqs ?T)" by (simp add: enqs_append)
  moreover from fifo have "enqs ?T = [0..<length (heap s')]" unfolding inv_fifo_def by blast
  ultimately have pb: "p < length (heap s')" by simp
  from step_Enqueued[OF assms(2)] have p1: "p < length (heap s1)" and f1: "fn (heap s1 ! p) = f"
    by blast+
  from run_heap_stable[OF assms(3) p1] f1 have fnp: "fn (heap s' ! p) = f" by simp
  have "p \<in># mset [0..<length (heap s')]" using pb by simp
  with own have "p \<in># mset (map snd (execs ?T)) + mset (executing s') + mset (tasks s')"
    by (simp only: inv_own_def)
  then have place: "p \<in> set (map snd (execs ?T)) \<or> p \<in> set (executing s') \<or> p \<in> set (tasks s')"
    by auto
  have fin: "p \<in> set (map snd (execs ?T)) \<Longrightarrow> result (heap s' ! p) = Some f"
    using inv_own_executed[OF own, of p] fnp by simp
  have 1: "(\<exists>w \<in> set (workers s'). pc w = Terminated) \<longrightarrow>
            stop s' \<and> tasks s' = []
            \<and> (p \<in> set (executing s') \<or> result (heap s' ! p) = Some f)"
  proof
    assume "\<exists>w \<in> set (workers s'). pc w = Terminated"
    with life have "stop s' \<and> tasks s' = []" by (simp add: inv_life_def)
    with place fin show "stop s' \<and> tasks s' = []
            \<and> (p \<in> set (executing s') \<or> result (heap s' ! p) = Some f)" by auto
  qed
  have all: "0 < n \<Longrightarrow> \<forall>w \<in> set (workers s'). pc w = Terminated \<Longrightarrow>
      tasks s' = [] \<and> executing s' = []"
  proof -
    assume n: "0 < n" and t: "\<forall>w \<in> set (workers s'). pc w = Terminated"
    from n len have "workers s' \<noteq> []" by auto
    then obtain w where "w \<in> set (workers s')" by (cases "workers s'") auto
    with t have "\<exists>w \<in> set (workers s'). pc w = Terminated" by blast
    with life have "tasks s' = []" by (simp add: inv_life_def)
    with executing_nil[OF t] show ?thesis by simp
  qed
  have 2: "0 < n \<and> (\<forall>w \<in> set (workers s'). pc w = Terminated) \<longrightarrow>
            result (heap s' ! p) = Some f \<and> p \<in> set (map snd (execs ?T))"
    using all place fin by auto
  have 3: "0 < n \<longrightarrow> result (heap s' ! p) = None \<or> result (heap s' ! p) = Some f"
  proof
    assume n: "0 < n"
    show "result (heap s' ! p) = None \<or> result (heap s' ! p) = Some f"
    proof (cases "alive s'")
      case True
      with inv_own_pending[OF own, of p] place fin show ?thesis by auto
    next
      case False
      with life have "\<forall>w \<in> set (workers s'). pc w = Terminated" by (auto simp: inv_life_def)
      with all[OF n] place fin show ?thesis by auto
    qed
  qed
  have 4: "\<forall>i s''. step (Worker i) s' = Inr (Exited i, s'') \<longrightarrow> stop s' \<and> tasks s' = []"
  proof (intro allI impI)
    fix i s'' assume "step (Worker i) s' = Inr (Exited i, s'')"
    then show "stop s' \<and> tasks s' = []" by (cases rule: stepE) auto
  qed
  from 1 2 3 4 show ?thesis by blast
qed

section \<open>The claims\<close>

subsection \<open>Construction\<close>

text \<open>
  Claim C4, as stated, fails: the constructor does not clamp. \<^verbatim>\<open>ThreadPool(0)\<close>
  is a pool without workers, which accepts a task that no thread will run. The
  default of four is in the caller \<^verbatim>\<open>main\<close> (line 83).
\<close>

theorem constructor_zero_workers_counterexample:
  "construct 8 0 = Inr (ThreadPool 0 :: int pool)
   \<and> workers (ThreadPool 0 :: int pool) = []
   \<and> enqueue (Inr 7) (ThreadPool 0 :: int pool)
       = (Inr \<lparr>shared_state = 0, valid = True\<rparr>,
          \<lparr>workers = [], tasks = [0], stop = False, alive = True,
           heap = [\<lparr>fn = Inr 7, result = None\<rparr>], cerr = []\<rparr>)
   \<and> main_threads 0 = 4"
  by (simp add: construct_eq eval_defs main_threads_def)

text \<open>
  Claim C4, amended. When the system lets it start every thread it asks for, the
  constructor spawns exactly \<open>threads\<close> workers, all of them started, for every
  \<open>threads\<close>, zero included, and returns a running pool with an empty queue; when a
  thread cannot be created it returns no pool. It does not clamp: the pool of zero
  workers accepts a task, and no schedule executes one. \<^verbatim>\<open>main\<close> passes the
  hardware hint when it is positive and 4 otherwise, so the pool \<^verbatim>\<open>main\<close> gets,
  when it gets one, has at least one worker.
\<close>

theorem constructor_spawns_exactly:
  "(construct capacity threads :: ctor_fault + 'a pool) =
     (if unat threads \<le> capacity then Inr (ThreadPool (unat threads))
      else if capacity = 0 then Inl system_error else Inl std_terminate)
   \<and> workers (ThreadPool n :: 'a pool) = replicate n \<lparr>pc = Idle, joinable = True\<rparr>
   \<and> length (workers (ThreadPool n :: 'a pool)) = n
   \<and> tasks (ThreadPool n :: 'a pool) = [] \<and> stop (ThreadPool n :: 'a pool) = False
   \<and> alive (ThreadPool n :: 'a pool) = True
   \<and> fst (enqueue f (ThreadPool 0 :: 'a pool)) = Inr \<lparr>shared_state = 0, valid = True\<rparr>
   \<and> (\<forall>acts tr s. run acts (ThreadPool 0 :: 'a pool) = Inr (tr, s) \<longrightarrow>
          workers s = [] \<and> execs tr = [])
   \<and> main_threads k = (if k > 0 then k else 4)
   \<and> 1 \<le> unat (main_threads k)
   \<and> (main_pool capacity k :: ctor_fault + 'a pool) =
       (if unat (main_threads k) \<le> capacity then Inr (ThreadPool (unat (main_threads k)))
        else if capacity = 0 then Inl system_error else Inl std_terminate)"
proof -
  have 0: "(construct capacity threads :: ctor_fault + 'a pool) =
     (if unat threads \<le> capacity then Inr (ThreadPool (unat threads))
      else if capacity = 0 then Inl system_error else Inl std_terminate)"
    by (rule construct_eq)
  have 1: "1 \<le> unat (main_threads k)"
    by (simp add: main_threads_def word_greater_zero_iff unat_gt_0 Suc_le_eq)
  have "unat (main_threads k) < 2 ^ 32" using unsigned_less[of "main_threads k"] by simp
  then have "unat (main_threads k) < 2 ^ 64" by simp
  then have 2: "unat (ucast (main_threads k) :: size_t) = unat (main_threads k)"
    by (simp add: unsigned_ucast_eq take_bit_nat_eq_self)
  have 3: "fst (enqueue f (ThreadPool 0 :: 'a pool)) = Inr \<lparr>shared_state = 0, valid = True\<rparr>"
    by (simp add: enqueue_def Let_def ThreadPool_def)
  have 4: "\<forall>acts tr s. run acts (ThreadPool 0 :: 'a pool) = Inr (tr, s) \<longrightarrow>
          workers s = [] \<and> execs tr = []"
    using no_workers_no_execution by blast
  have 5: "(main_pool capacity k :: ctor_fault + 'a pool) =
       (if unat (main_threads k) \<le> capacity then Inr (ThreadPool (unat (main_threads k)))
        else if capacity = 0 then Inl system_error else Inl std_terminate)"
    unfolding main_pool_def construct_eq 2 by (rule refl)
  have 6: "workers (ThreadPool n :: 'a pool) = replicate n \<lparr>pc = Idle, joinable = True\<rparr>"
    "length (workers (ThreadPool n :: 'a pool)) = n"
    "tasks (ThreadPool n :: 'a pool) = []" "stop (ThreadPool n :: 'a pool) = False"
    "alive (ThreadPool n :: 'a pool) = True"
    "main_threads k = (if k > 0 then k else 4)"
    by (simp_all add: ThreadPool_def main_threads_def)
  from 0 1 3 4 5 6 show ?thesis by blast
qed

theorem constructor_spawns_exactly_witness:
  "construct 8 4 = Inr (ThreadPool 4 :: int pool)
   \<and> construct 2 4 = (Inl std_terminate :: ctor_fault + int pool)
   \<and> construct 0 4 = (Inl system_error :: ctor_fault + int pool)
   \<and> run [Enqueue (Inr 7), Stop, Notify_all] (ThreadPool 0 :: int pool)
     = Inr ([Enqueued 0, Stopped, Notified_all],
            \<lparr>workers = [], tasks = [0], stop = True, alive = True,
             heap = [\<lparr>fn = Inr 7, result = None\<rparr>], cerr = []\<rparr>)
   \<and> execs [Enqueued 0, Stopped, Notified_all] = []"
proof -
  have r: "run [Enqueue (Inr 7), Stop, Notify_all] (ThreadPool 0 :: int pool)
     = Inr ([Enqueued 0, Stopped, Notified_all],
            \<lparr>workers = [], tasks = [0], stop = True, alive = True,
             heap = [\<lparr>fn = Inr 7, result = None\<rparr>], cerr = []\<rparr>)"
    by (simp add: eval_defs)
  have a: "construct 8 4 = Inr (ThreadPool 4 :: int pool)"
    using constructor_spawns_exactly[of 8 4, THEN conjunct1] by simp
  have b: "construct 2 4 = (Inl std_terminate :: ctor_fault + int pool)"
    using constructor_spawns_exactly[of 2 4, THEN conjunct1] by simp
  have c: "construct 0 4 = (Inl system_error :: ctor_fault + int pool)"
    using constructor_spawns_exactly[of 0 4, THEN conjunct1] by simp
  have d: "execs [Enqueued 0, Stopped, Notified_all] = []"
    using constructor_spawns_exactly[where 'a = int, THEN conjunct2, THEN conjunct2, THEN conjunct2,
        THEN conjunct2, THEN conjunct2, THEN conjunct2, THEN conjunct2, THEN conjunct1] r
    by blast
  from r a b c d show ?thesis by blast
qed

subsection \<open>Submission\<close>

text \<open>
  Claim C1. \<^verbatim>\<open>enqueue\<close> called once shutdown has begun, that is, on a pool whose
  flag \<open>stop\<close> was set before the schedule or by the destructor's step \<open>Stop\<close> in
  it, throws \<^verbatim>\<open>std::runtime_error("enqueue on stopped ThreadPool")\<close> (the spec's
  PoolStopped) to its caller and returns no future; called while the flag is not
  set, it returns a valid future on the new task.
\<close>

theorem enqueue_after_stop_throws:
  assumes "run acts s0 = Inr (tr, s)"
  shows "(stop s0 \<or> Stop \<in> set acts \<longrightarrow>
            fst (enqueue f s) = Inl (runtime_error ''enqueue on stopped ThreadPool''))
       \<and> (\<not> stop s \<longrightarrow>
            fst (enqueue f s) = Inr \<lparr>shared_state = length (heap s), valid = True\<rparr>)"
  using run_stop[OF assms] by (auto simp: enqueue_stop enqueue_run)

theorem enqueue_after_stop_throws_witness:
  "fst (enqueue (Inr (7::int)) (dtor_stop (ThreadPool 2)))
     = Inl (runtime_error ''enqueue on stopped ThreadPool'')
   \<and> fst (enqueue (Inr (7::int)) (ThreadPool 2)) = Inr \<lparr>shared_state = 0, valid = True\<rparr>"
proof -
  have 1: "run [Stop] (ThreadPool 2 :: int pool) = Inr ([Stopped], dtor_stop (ThreadPool 2))"
    by (simp add: step_def ThreadPool_def)
  have 2: "run [] (ThreadPool 2 :: int pool) = Inr ([], ThreadPool 2)"
    by simp
  from enqueue_after_stop_throws[OF 1, of "Inr 7"] enqueue_after_stop_throws[OF 2, of "Inr 7"]
  show ?thesis by (simp add: ThreadPool_def)
qed

text \<open>
  Claim C10. A rejected submission is atomic: on a stopped pool \<^verbatim>\<open>enqueue\<close>
  throws and leaves the whole state as it was, the queue, the workers, the flag and
  the heap, on which the packaged task made in line 41 is gone again; the caller gets
  the exception and no future.
\<close>

theorem rejected_enqueue_changes_nothing:
  assumes "stop s"
  shows "enqueue f s = (Inl (runtime_error ''enqueue on stopped ThreadPool''), s)
       \<and> (alive s \<longrightarrow> step (Enqueue f) s = Inr (Rejected, s))"
  using assms by (simp add: enqueue_stop step_def)

theorem rejected_enqueue_changes_nothing_witness:
  "enqueue (Inr (7::int)) \<lparr>workers = [\<lparr>pc = Executing 0, joinable = True\<rparr>], tasks = [1], stop = True,
       alive = True, heap = [\<lparr>fn = Inr 3, result = None\<rparr>, \<lparr>fn = Inr 4, result = None\<rparr>], cerr = []\<rparr>
   = (Inl (runtime_error ''enqueue on stopped ThreadPool''),
      \<lparr>workers = [\<lparr>pc = Executing 0, joinable = True\<rparr>], tasks = [1], stop = True,
       alive = True, heap = [\<lparr>fn = Inr 3, result = None\<rparr>, \<lparr>fn = Inr 4, result = None\<rparr>], cerr = []\<rparr>)
   \<and> step (Enqueue (Inr (7::int))) \<lparr>workers = [\<lparr>pc = Executing 0, joinable = True\<rparr>], tasks = [1], stop = True,
       alive = True, heap = [\<lparr>fn = Inr 3, result = None\<rparr>, \<lparr>fn = Inr 4, result = None\<rparr>], cerr = []\<rparr>
   = Inr (Rejected, \<lparr>workers = [\<lparr>pc = Executing 0, joinable = True\<rparr>], tasks = [1], stop = True,
       alive = True, heap = [\<lparr>fn = Inr 3, result = None\<rparr>, \<lparr>fn = Inr 4, result = None\<rparr>], cerr = []\<rparr>)"
  using rejected_enqueue_changes_nothing[of "\<lparr>workers = [\<lparr>pc = Executing 0, joinable = True\<rparr>], tasks = [1], stop = True,
       alive = True, heap = [\<lparr>fn = Inr 3, result = None\<rparr>, \<lparr>fn = Inr 4, result = None\<rparr>], cerr = []\<rparr>" "Inr (7::int)"]
  by simp

subsection \<open>The flag\<close>

text \<open>
  Claim C9. The flag \<open>stop\<close> is false in a new pool, and after any schedule it is
  set exactly if it was set before or the schedule holds the destructor's step
  \<open>Stop\<close>: only the destructor sets it, and nothing sets it back.
\<close>

theorem stop_set_once_never_reset:
  assumes "run acts s = Inr (tr, s')"
  shows "\<not> stop (ThreadPool n) \<and> (stop s' \<longleftrightarrow> stop s \<or> Stop \<in> set acts)"
  using run_stop[OF assms] by (simp add: ThreadPool_def)

theorem stop_set_once_never_reset_witness:
  "run [Enqueue (Inr 5), Stop, Worker 0, Enqueue (Inr 6), Worker 0, Worker 0, Join 0]
        (ThreadPool 1 :: int pool)
     = Inr ([Enqueued 0, Stopped, Dequeued 0 0, Rejected, Executed 0 0, Exited 0, Joined 0],
            \<lparr>workers = [\<lparr>pc = Terminated, joinable = False\<rparr>], tasks = [], stop = True,
             alive = True, heap = [\<lparr>fn = Inr 5, result = Some (Inr 5)\<rparr>], cerr = []\<rparr>)
   \<and> \<not> stop (ThreadPool 1 :: int pool)
   \<and> run [Enqueue (Inr 5), Worker 0] (ThreadPool 1 :: int pool)
     = Inr ([Enqueued 0, Dequeued 0 0],
            \<lparr>workers = [\<lparr>pc = Executing 0, joinable = True\<rparr>], tasks = [], stop = False,
             alive = True, heap = [\<lparr>fn = Inr 5, result = None\<rparr>], cerr = []\<rparr>)"
proof -
  have r: "run [Enqueue (Inr 5), Stop, Worker 0, Enqueue (Inr 6), Worker 0, Worker 0, Join 0]
        (ThreadPool 1 :: int pool)
     = Inr ([Enqueued 0, Stopped, Dequeued 0 0, Rejected, Executed 0 0, Exited 0, Joined 0],
            \<lparr>workers = [\<lparr>pc = Terminated, joinable = False\<rparr>], tasks = [], stop = True,
             alive = True, heap = [\<lparr>fn = Inr 5, result = Some (Inr 5)\<rparr>], cerr = []\<rparr>)"
    by (simp add: eval_defs)
  have q: "run [Enqueue (Inr 5), Worker 0] (ThreadPool 1 :: int pool)
     = Inr ([Enqueued 0, Dequeued 0 0],
            \<lparr>workers = [\<lparr>pc = Executing 0, joinable = True\<rparr>], tasks = [], stop = False,
             alive = True, heap = [\<lparr>fn = Inr 5, result = None\<rparr>], cerr = []\<rparr>)"
    by (simp add: eval_defs)
  have "\<not> stop (ThreadPool 1 :: int pool)"
    using stop_set_once_never_reset[OF r, of 1] stop_set_once_never_reset[OF q, of 1] by blast
  with r q show ?thesis by blast
qed

subsection \<open>Ownership and order of the tasks\<close>

text \<open>
  Claim C8. In every schedule from a new pool each task is executed at most once (no
  address occurs twice among the executed tasks) and dequeued at most once, by the
  worker that then executes it; in every state reached no task is both in the queue
  and in a worker's hands, or in the hands of two workers; an executed task is
  nowhere any more. From its enqueueing until its dequeueing, which is one step under
  the lock, a task is in the queue and nowhere else.
\<close>

theorem task_executed_at_most_once:
  assumes "run acts (ThreadPool n) = Inr (tr, s)"
  shows "distinct (map snd (execs tr))
       \<and> distinct (map snd (deqs tr))
       \<and> set (execs tr) \<subseteq> set (deqs tr)
       \<and> distinct (tasks s @ executing s)
       \<and> set (map snd (execs tr)) \<inter> set (tasks s @ executing s) = {}
       \<and> distinct (enqs tr) \<and> enqs tr = map snd (deqs tr) @ tasks s"
proof -
  have d: "distinct (map snd (execs tr) @ executing s @ tasks s)"
    by (rule inv_own_distinct[OF run_inv_own[OF assms]])
  have f: "inv_fifo tr s" by (rule run_inv_fifo[OF assms])
  then have e: "enqs tr = map snd (deqs tr) @ tasks s" and u: "enqs tr = [0..<length (heap s)]"
    and sub: "set (execs tr) \<subseteq> set (deqs tr)"
    unfolding inv_fifo_def by blast+
  from u have de: "distinct (enqs tr)" by simp
  with e have "distinct (map snd (deqs tr))" by (metis distinct_append)
  with d de e sub show ?thesis by auto
qed

theorem task_executed_at_most_once_witness:
  "run [Enqueue (Inr 10), Enqueue (Inr 20), Enqueue (Inr 30), Worker 1, Worker 0, Worker 1]
       (ThreadPool 2 :: int pool)
     = Inr ([Enqueued 0, Enqueued 1, Enqueued 2, Dequeued 1 0, Dequeued 0 1, Executed 1 0],
            \<lparr>workers = [\<lparr>pc = Executing 1, joinable = True\<rparr>, \<lparr>pc = Idle, joinable = True\<rparr>],
             tasks = [2], stop = False, alive = True,
             heap = [\<lparr>fn = Inr 10, result = Some (Inr 10)\<rparr>, \<lparr>fn = Inr 20, result = None\<rparr>,
                     \<lparr>fn = Inr 30, result = None\<rparr>],
             cerr = []\<rparr>)
   \<and> distinct ([2] @ executing
        \<lparr>workers = [\<lparr>pc = Executing 1, joinable = True\<rparr>, \<lparr>pc = Idle, joinable = True\<rparr>],
             tasks = [2], stop = False, alive = True,
             heap = [\<lparr>fn = Inr 10, result = Some (Inr 10)\<rparr>, \<lparr>fn = Inr 20, result = None\<rparr>,
                     \<lparr>fn = Inr (30::int), result = None\<rparr>],
             cerr = []\<rparr>)"
proof -
  have r: "run [Enqueue (Inr 10), Enqueue (Inr 20), Enqueue (Inr 30), Worker 1, Worker 0, Worker 1]
       (ThreadPool 2 :: int pool)
     = Inr ([Enqueued 0, Enqueued 1, Enqueued 2, Dequeued 1 0, Dequeued 0 1, Executed 1 0],
            \<lparr>workers = [\<lparr>pc = Executing 1, joinable = True\<rparr>, \<lparr>pc = Idle, joinable = True\<rparr>],
             tasks = [2], stop = False, alive = True,
             heap = [\<lparr>fn = Inr 10, result = Some (Inr 10)\<rparr>, \<lparr>fn = Inr 20, result = None\<rparr>,
                     \<lparr>fn = Inr 30, result = None\<rparr>],
             cerr = []\<rparr>)"
    by (simp add: eval_defs)
  from task_executed_at_most_once[OF r, THEN conjunct2, THEN conjunct2, THEN conjunct2, THEN conjunct1]
  have "distinct ([2] @ executing
        \<lparr>workers = [\<lparr>pc = Executing 1, joinable = True\<rparr>, \<lparr>pc = Idle, joinable = True\<rparr>],
             tasks = [2], stop = False, alive = True,
             heap = [\<lparr>fn = Inr 10, result = Some (Inr 10)\<rparr>, \<lparr>fn = Inr 20, result = None\<rparr>,
                     \<lparr>fn = Inr (30::int), result = None\<rparr>],
             cerr = []\<rparr>)"
    by simp
  with r show ?thesis by blast
qed

text \<open>
  Claim C7. Tasks are dequeued in the order of their enqueueing: the tasks dequeued so
  far, followed by the queue, are the tasks enqueued, and the \<open>k\<close>-th dequeue takes
  the \<open>k\<close>-th task enqueued. A worker starts on a task when it dequeues it; a single
  worker has finished every task it dequeued but the last, so it starts the tasks one
  after the other in the order of enqueueing. Completion is not ordered: there is a
  schedule of two workers in which the second task is executed before the first.
\<close>

theorem fifo_dequeue_order:
  assumes "run acts (ThreadPool n) = Inr (tr, s)"
  shows "enqs tr = map snd (deqs tr) @ tasks s
       \<and> distinct (enqs tr)
       \<and> prefix (map snd (deqs tr)) (enqs tr)
       \<and> (\<forall>k < length (deqs tr). snd (deqs tr ! k) = enqs tr ! k)
       \<and> (n = 1 \<longrightarrow> map snd (deqs tr) = map snd (execs tr) @ executing s
                    \<and> length (executing s) \<le> 1)
       \<and> (\<exists>acts' tr' s'. run acts' (ThreadPool 2 :: int pool) = Inr (tr', s')
             \<and> enqs tr' = [0, 1] \<and> map snd (deqs tr') = [0, 1] \<and> map snd (execs tr') = [1, 0])"
proof -
  have f: "inv_fifo tr s" by (rule run_inv_fifo[OF assms])
  then have e: "enqs tr = map snd (deqs tr) @ tasks s" and u: "enqs tr = [0..<length (heap s)]"
    unfolding inv_fifo_def by blast+
  from u have de: "distinct (enqs tr)" by simp
  from e have p: "prefix (map snd (deqs tr)) (enqs tr)" by (simp add: prefix_def)
  have k: "\<forall>k < length (deqs tr). snd (deqs tr ! k) = enqs tr ! k"
    using e by (simp add: nth_append)
  have len: "length (workers s) = n"
    using run_length_workers[OF assms] by (simp add: length_workers_ThreadPool)
  have one: "n = 1 \<longrightarrow> map snd (deqs tr) = map snd (execs tr) @ executing s
                    \<and> length (executing s) \<le> 1"
  proof
    assume "n = 1"
    with len have l: "length (workers s) = 1" by simp
    with f have "map snd (deqs tr) = map snd (execs tr) @ executing s"
      by (simp add: inv_fifo_def)
    moreover have "length (executing s) \<le> 1"
      using l by (cases "pc (workers s ! 0)") (simp_all add: executing_single)
    ultimately show "map snd (deqs tr) = map snd (execs tr) @ executing s
                    \<and> length (executing s) \<le> 1" by simp
  qed
  have ex: "\<exists>acts' tr' s'. run acts' (ThreadPool 2 :: int pool) = Inr (tr', s')
             \<and> enqs tr' = [0, 1] \<and> map snd (deqs tr') = [0, 1] \<and> map snd (execs tr') = [1, 0]"
    by (intro exI conjI, rule reversed_completion) simp_all
  from e de p k one ex show ?thesis by blast
qed

theorem fifo_dequeue_order_witness:
  "run [Enqueue (Inr 10), Enqueue (Inr 20), Enqueue (Inr 30), Worker 0, Worker 0, Worker 0]
       (ThreadPool 1 :: int pool)
     = Inr ([Enqueued 0, Enqueued 1, Enqueued 2, Dequeued 0 0, Executed 0 0, Dequeued 0 1],
            \<lparr>workers = [\<lparr>pc = Executing 1, joinable = True\<rparr>],
             tasks = [2], stop = False, alive = True,
             heap = [\<lparr>fn = Inr 10, result = Some (Inr 10)\<rparr>, \<lparr>fn = Inr 20, result = None\<rparr>,
                     \<lparr>fn = Inr 30, result = None\<rparr>],
             cerr = []\<rparr>)
   \<and> prefix [0, 1] [0, 1, 2 :: nat]"
proof -
  have r: "run [Enqueue (Inr 10), Enqueue (Inr 20), Enqueue (Inr 30), Worker 0, Worker 0, Worker 0]
       (ThreadPool 1 :: int pool)
     = Inr ([Enqueued 0, Enqueued 1, Enqueued 2, Dequeued 0 0, Executed 0 0, Dequeued 0 1],
            \<lparr>workers = [\<lparr>pc = Executing 1, joinable = True\<rparr>],
             tasks = [2], stop = False, alive = True,
             heap = [\<lparr>fn = Inr 10, result = Some (Inr 10)\<rparr>, \<lparr>fn = Inr 20, result = None\<rparr>,
                     \<lparr>fn = Inr 30, result = None\<rparr>],
             cerr = []\<rparr>)"
    by (simp add: eval_defs)
  from fifo_dequeue_order[OF r, THEN conjunct2, THEN conjunct2, THEN conjunct1]
  have "prefix [0, 1] [0, 1, 2 :: nat]"
    by simp
  with r show ?thesis by blast
qed

subsection \<open>Failing tasks\<close>



subsection \<open>Results\<close>

text \<open>
  Claim C3, as stated, fails: \<^verbatim>\<open>enqueue\<close> returns a \<^verbatim>\<open>std::future\<close>, whose
  \<^verbatim>\<open>get\<close> may be called once. The first call returns the outcome and leaves the
  future without a shared state; a second call is undefined.
\<close>

theorem future_get_twice_counterexample:
  "run [Enqueue (Inr 7), Worker 0, Worker 0] (ThreadPool 1 :: int pool)
     = Inr ([Enqueued 0, Dequeued 0 0, Executed 0 0],
            \<lparr>workers = [\<lparr>pc = Idle, joinable = True\<rparr>], tasks = [], stop = False, alive = True,
             heap = [\<lparr>fn = Inr 7, result = Some (Inr 7)\<rparr>], cerr = []\<rparr>)
   \<and> future_get \<lparr>shared_state = 0, valid = True\<rparr> [\<lparr>fn = Inr 7, result = Some (Inr (7::int))\<rparr>]
     = (Got (Inr 7), \<lparr>shared_state = 0, valid = False\<rparr>)
   \<and> future_get \<lparr>shared_state = 0, valid = False\<rparr> [\<lparr>fn = Inr 7, result = Some (Inr (7::int))\<rparr>]
     = (Undefined_behaviour, \<lparr>shared_state = 0, valid = False\<rparr>)"
  by (simp add: eval_defs future_get_def)

text \<open>
  Claim C3, amended. On a valid future whose shared state is ready, \<^verbatim>\<open>get\<close>
  returns the stored outcome and invalidates the future. The outcome is stored once:
  whatever the pool does afterwards, the shared state keeps it, so \<^verbatim>\<open>get\<close>
  returns the same outcome however late it is called, and the task is not executed
  again. \<^verbatim>\<open>get\<close> on the invalidated future is undefined.
\<close>

theorem future_get_once:
  assumes "run acts0 (ThreadPool n) = Inr (tr0, s)"
    and "run acts s = Inr (tr, s')"
    and "valid fut" "shared_state fut < length (heap s)"
    and "result (heap s ! shared_state fut) = Some r"
  shows "future_get fut (heap s) = (Got r, fut\<lparr>valid := False\<rparr>)
       \<and> future_get fut (heap s') = (Got r, fut\<lparr>valid := False\<rparr>)
       \<and> shared_state fut \<notin> set (map snd (execs tr))
       \<and> fst (future_get (fut\<lparr>valid := False\<rparr>) (heap s')) = Undefined_behaviour"
proof -
  let ?p = "shared_state fut"
  from run_heap_stable[OF assms(2,4), of r] assms(5)
  have st: "?p < length (heap s')" "result (heap s' ! ?p) = Some r" by simp_all
  have 1: "future_get fut (heap s) = (Got r, fut\<lparr>valid := False\<rparr>)"
    using assms(3,4,5) by (simp add: future_get_def)
  have 2: "future_get fut (heap s') = (Got r, fut\<lparr>valid := False\<rparr>)"
    using assms(3) st by (simp add: future_get_def)
  have 3: "?p \<notin> set (map snd (execs tr))"
  proof (cases "alive s")
    case False
    from run_dead[OF False assms(2)] show ?thesis by simp
  next
    case True
    have own: "inv_own tr0 s" by (rule run_inv_own[OF assms(1)])
    have "?p \<in># mset [0..<length (heap s)]" using assms(4) by simp
    with own have "?p \<in># mset (map snd (execs tr0)) + mset (executing s) + mset (tasks s)"
      by (simp only: inv_own_def)
    then have "?p \<in> set (map snd (execs tr0)) \<or> ?p \<in> set (executing s @ tasks s)" by auto
    with inv_own_pending[OF own True, of ?p] assms(5)
    have in0: "?p \<in> set (map snd (execs tr0))" by auto
    have r: "run (acts0 @ acts) (ThreadPool n) = Inr (tr0 @ tr, s')"
      using assms(1,2) by (simp add: run_append)
    from inv_own_distinct[OF run_inv_own[OF r]]
    have "distinct (map snd (execs tr0) @ map snd (execs tr))" by (auto simp: execs_append)
    with in0 show ?thesis by auto
  qed
  have 4: "fst (future_get (fut\<lparr>valid := False\<rparr>) (heap s')) = Undefined_behaviour"
    by (simp add: future_get_def)
  from 1 2 3 4 show ?thesis by blast
qed

theorem future_get_once_witness:
  "run [Enqueue (Inr 7), Worker 0, Worker 0] (ThreadPool 1 :: int pool)
     = Inr ([Enqueued 0, Dequeued 0 0, Executed 0 0],
            \<lparr>workers = [\<lparr>pc = Idle, joinable = True\<rparr>], tasks = [], stop = False, alive = True,
             heap = [\<lparr>fn = Inr 7, result = Some (Inr 7)\<rparr>], cerr = []\<rparr>)
   \<and> run [Enqueue (Inr 8), Worker 0, Worker 0]
         \<lparr>workers = [\<lparr>pc = Idle, joinable = True\<rparr>], tasks = [], stop = False, alive = True,
          heap = [\<lparr>fn = Inr (7::int), result = Some (Inr 7)\<rparr>], cerr = []\<rparr>
     = Inr ([Enqueued 1, Dequeued 0 1, Executed 0 1],
            \<lparr>workers = [\<lparr>pc = Idle, joinable = True\<rparr>], tasks = [], stop = False, alive = True,
             heap = [\<lparr>fn = Inr 7, result = Some (Inr 7)\<rparr>, \<lparr>fn = Inr 8, result = Some (Inr 8)\<rparr>],
             cerr = []\<rparr>)
   \<and> future_get \<lparr>shared_state = 0, valid = True\<rparr>
         [\<lparr>fn = Inr 7, result = Some (Inr 7)\<rparr>, \<lparr>fn = Inr (8::int), result = Some (Inr 8)\<rparr>]
     = (Got (Inr 7), \<lparr>shared_state = 0, valid = False\<rparr>)"
proof -
  have r0: "run [Enqueue (Inr 7), Worker 0, Worker 0] (ThreadPool 1 :: int pool)
     = Inr ([Enqueued 0, Dequeued 0 0, Executed 0 0],
            \<lparr>workers = [\<lparr>pc = Idle, joinable = True\<rparr>], tasks = [], stop = False, alive = True,
             heap = [\<lparr>fn = Inr 7, result = Some (Inr 7)\<rparr>], cerr = []\<rparr>)"
    by (simp add: eval_defs)
  have r1: "run [Enqueue (Inr 8), Worker 0, Worker 0]
         \<lparr>workers = [\<lparr>pc = Idle, joinable = True\<rparr>], tasks = [], stop = False, alive = True,
          heap = [\<lparr>fn = Inr (7::int), result = Some (Inr 7)\<rparr>], cerr = []\<rparr>
     = Inr ([Enqueued 1, Dequeued 0 1, Executed 0 1],
            \<lparr>workers = [\<lparr>pc = Idle, joinable = True\<rparr>], tasks = [], stop = False, alive = True,
             heap = [\<lparr>fn = Inr 7, result = Some (Inr 7)\<rparr>, \<lparr>fn = Inr 8, result = Some (Inr 8)\<rparr>],
             cerr = []\<rparr>)"
    by (simp add: eval_defs)
  from future_get_once[OF r0 r1, of "\<lparr>shared_state = 0, valid = True\<rparr>" "Inr 7",
      THEN conjunct2, THEN conjunct1]
  have "future_get \<lparr>shared_state = 0, valid = True\<rparr>
         [\<lparr>fn = Inr 7, result = Some (Inr 7)\<rparr>, \<lparr>fn = Inr (8::int), result = Some (Inr 8)\<rparr>]
     = (Got (Inr 7), \<lparr>shared_state = 0, valid = False\<rparr>)"
    by simp
  with r0 r1 show ?thesis by blast
qed

subsection \<open>Shutdown\<close>

text \<open>
  Claim C2, as stated, fails twice. With two workers, one worker terminates while
  the only task is still in the other's hands, not yet executed. With no workers
  (the constructor accepts 0), nothing drains the queue: the destructor discards the
  task, and its future holds \<^verbatim>\<open>broken_promise\<close>.
\<close>

theorem shutdown_early_exit_counterexample:
  "run [Enqueue (Inr 7), Worker 0, Stop, Notify_all, Worker 1] (ThreadPool 2 :: int pool)
     = Inr ([Enqueued 0, Dequeued 0 0, Stopped, Notified_all, Exited 1],
            \<lparr>workers = [\<lparr>pc = Executing 0, joinable = True\<rparr>, \<lparr>pc = Terminated, joinable = True\<rparr>],
             tasks = [], stop = True, alive = True,
             heap = [\<lparr>fn = Inr 7, result = None\<rparr>], cerr = []\<rparr>)
   \<and> run [Enqueue (Inr 7), Stop, Notify_all, Destroy] (ThreadPool 0 :: int pool)
     = Inr ([Enqueued 0, Stopped, Notified_all, Destroyed],
            \<lparr>workers = [], tasks = [0], stop = True, alive = False,
             heap = [\<lparr>fn = Inr 7, result = Some (Inl (future_error broken_promise))\<rparr>],
             cerr = []\<rparr>)"
  by (simp add: eval_defs)

text \<open>
  Claim C2, amended. A worker leaves its loop only when \<open>stop\<close> is set and the
  queue is empty. So, for a task \<open>f\<close> accepted at any point of any schedule: once
  some worker has terminated, the task is out of the queue, and it either has been
  executed, its shared state holding \<open>f\<close>'s outcome, or is in the hands of a
  worker; once all workers of a pool of at least one worker have terminated, it has
  been executed; in a pool of at least one worker its shared state never holds
  anything but \<open>f\<close>'s outcome, \<^verbatim>\<open>broken_promise\<close> in particular; and
  from every state of such a pool the destructor's first two steps and the workers'
  own steps lead to a state in which all workers have terminated and the task has
  been executed.
\<close>

theorem shutdown_drains:
  assumes "run acts (ThreadPool n) = Inr (tr, s)"
    and "step (Enqueue f) s = Inr (Enqueued p, s1)"
    and "run acts' s1 = Inr (tr', s')"
  shows "((\<exists>w \<in> set (workers s'). pc w = Terminated) \<longrightarrow>
            stop s' \<and> tasks s' = []
            \<and> (p \<in> set (executing s') \<or> result (heap s' ! p) = Some f))
       \<and> (0 < n \<and> (\<forall>w \<in> set (workers s'). pc w = Terminated) \<longrightarrow>
            result (heap s' ! p) = Some f
            \<and> p \<in> set (map snd (execs (tr @ Enqueued p # tr'))))
       \<and> (0 < n \<longrightarrow> result (heap s' ! p) = None \<or> result (heap s' ! p) = Some f)
       \<and> (\<forall>i s''. step (Worker i) s' = Inr (Exited i, s'') \<longrightarrow> stop s' \<and> tasks s' = [])
       \<and> (0 < n \<and> alive s' \<longrightarrow>
            (\<exists>ws tr'' s''. run (Stop # Notify_all # map Worker ws) s' = Inr (tr'', s'')
                \<and> (\<forall>w \<in> set (workers s''). pc w = Terminated)
                \<and> result (heap s'' ! p) = Some f))"
proof -
  note safe = drain_safety[OF assms]
  have live: "0 < n \<and> alive s' \<longrightarrow>
            (\<exists>ws tr'' s''. run (Stop # Notify_all # map Worker ws) s' = Inr (tr'', s'')
                \<and> (\<forall>w \<in> set (workers s''). pc w = Terminated)
                \<and> result (heap s'' ! p) = Some f)"
  proof
    assume a: "0 < n \<and> alive s'"
    let ?k = "length (workers s')"
    let ?s1 = "dtor_notify (dtor_stop s')"
    have 1: "run [Stop, Notify_all] s' = Inr ([Stopped, Notified_all], ?s1)"
      using stop_notify[of s'] a by blast
    have a1: "alive ?s1" "stop ?s1" "length (workers ?s1) = ?k"
      using a by (simp_all add: dtor_stop_def)
    from workers_terminate[OF a1(1,2) notify_wakes, of ?k] a1(3) obtain ws tr2 s2 where
      2: "run (map Worker ws) ?s1 = Inr (tr2, s2)"
      and t2: "\<forall>i < ?k. pc (workers s2 ! i) = Terminated"
      and l2: "length (workers s2) = ?k"
      by auto
    from t2 l2 have all: "\<forall>w \<in> set (workers s2). pc w = Terminated"
      by (auto simp: in_set_conv_nth)
    have "run ([Stop, Notify_all] @ map Worker ws) s' = Inr ([Stopped, Notified_all] @ tr2, s2)"
      unfolding run_append using 1 2 by simp
    then have r: "run (Stop # Notify_all # map Worker ws) s' = Inr (Stopped # Notified_all # tr2, s2)"
      by simp
    with assms(3)
    have "run (acts' @ Stop # Notify_all # map Worker ws) s1
            = Inr (tr' @ Stopped # Notified_all # tr2, s2)"
      by (simp add: run_append)
    from drain_safety[OF assms(1,2) this] a all have "result (heap s2 ! p) = Some f" by blast
    with r all show "\<exists>ws tr'' s''. run (Stop # Notify_all # map Worker ws) s' = Inr (tr'', s'')
                \<and> (\<forall>w \<in> set (workers s''). pc w = Terminated)
                \<and> result (heap s'' ! p) = Some f"
      by blast
  qed
  from safe live show ?thesis by blast
qed

theorem shutdown_drains_witness:
  "step (Enqueue (Inr 7)) (ThreadPool 2 :: int pool)
     = Inr (Enqueued 0,
            \<lparr>workers = [\<lparr>pc = Idle, joinable = True\<rparr>, \<lparr>pc = Idle, joinable = True\<rparr>],
             tasks = [0], stop = False, alive = True,
             heap = [\<lparr>fn = Inr 7, result = None\<rparr>], cerr = []\<rparr>)
   \<and> run [Worker 0, Stop, Worker 1, Worker 0, Worker 0]
         \<lparr>workers = [\<lparr>pc = Idle, joinable = True\<rparr>, \<lparr>pc = Idle, joinable = True\<rparr>],
          tasks = [0], stop = False, alive = True,
          heap = [\<lparr>fn = Inr (7::int), result = None\<rparr>], cerr = []\<rparr>
     = Inr ([Dequeued 0 0, Stopped, Exited 1, Executed 0 0, Exited 0],
            \<lparr>workers = [\<lparr>pc = Terminated, joinable = True\<rparr>, \<lparr>pc = Terminated, joinable = True\<rparr>],
             tasks = [], stop = True, alive = True,
             heap = [\<lparr>fn = Inr 7, result = Some (Inr 7)\<rparr>], cerr = []\<rparr>)
   \<and> result (heap \<lparr>workers = [\<lparr>pc = Terminated, joinable = True\<rparr>, \<lparr>pc = Terminated, joinable = True\<rparr>],
             tasks = [], stop = True, alive = True,
             heap = [\<lparr>fn = Inr (7::int), result = Some (Inr 7)\<rparr>], cerr = []\<rparr> ! 0) = Some (Inr 7)"
proof -
  have r0: "run [] (ThreadPool 2 :: int pool) = Inr ([], ThreadPool 2)" by simp
  have e: "step (Enqueue (Inr 7)) (ThreadPool 2 :: int pool)
     = Inr (Enqueued 0,
            \<lparr>workers = [\<lparr>pc = Idle, joinable = True\<rparr>, \<lparr>pc = Idle, joinable = True\<rparr>],
             tasks = [0], stop = False, alive = True,
             heap = [\<lparr>fn = Inr 7, result = None\<rparr>], cerr = []\<rparr>)"
    by (simp add: eval_defs)
  have r1: "run [Worker 0, Stop, Worker 1, Worker 0, Worker 0]
         \<lparr>workers = [\<lparr>pc = Idle, joinable = True\<rparr>, \<lparr>pc = Idle, joinable = True\<rparr>],
          tasks = [0], stop = False, alive = True,
          heap = [\<lparr>fn = Inr (7::int), result = None\<rparr>], cerr = []\<rparr>
     = Inr ([Dequeued 0 0, Stopped, Exited 1, Executed 0 0, Exited 0],
            \<lparr>workers = [\<lparr>pc = Terminated, joinable = True\<rparr>, \<lparr>pc = Terminated, joinable = True\<rparr>],
             tasks = [], stop = True, alive = True,
             heap = [\<lparr>fn = Inr 7, result = Some (Inr 7)\<rparr>], cerr = []\<rparr>)"
    by (simp add: eval_defs)
  from shutdown_drains[OF r0 e r1, THEN conjunct2, THEN conjunct1]
  have "result (heap \<lparr>workers = [\<lparr>pc = Terminated, joinable = True\<rparr>, \<lparr>pc = Terminated, joinable = True\<rparr>],
             tasks = [], stop = True, alive = True,
             heap = [\<lparr>fn = Inr (7::int), result = Some (Inr 7)\<rparr>], cerr = []\<rparr> ! 0) = Some (Inr 7)"
    by simp
  with e r1 show ?thesis by blast
qed

text \<open>
  Claim C6, as stated, fails: the class has no \<^verbatim>\<open>shutdown\<close>; the flag is set by
  the destructor alone, and when the destructor has completed there is no pool left.
  A second shutdown is then not a step without effect: it is not defined.
\<close>

theorem second_shutdown_counterexample:
  "run [Stop, Notify_all, Worker 0, Join 0, Destroy] (ThreadPool 1 :: int pool)
     = Inr ([Stopped, Notified_all, Exited 0, Joined 0, Destroyed],
            \<lparr>workers = [\<lparr>pc = Terminated, joinable = False\<rparr>], tasks = [], stop = True,
             alive = False, heap = [], cerr = []\<rparr>)
   \<and> step Stop (\<lparr>workers = [\<lparr>pc = Terminated, joinable = False\<rparr>], tasks = [], stop = True,
             alive = False, heap = [], cerr = []\<rparr> :: int pool) = Inl No_object
   \<and> run [Stop, Notify_all, Worker 0, Join 0, Destroy, Stop] (ThreadPool 1 :: int pool)
     = Inl No_object"
  by (simp add: eval_defs)

text \<open>
  Claim C6, amended. Shutdown is the destructor. On a live pool its first block sets
  \<open>stop\<close> and \<^verbatim>\<open>notify_all\<close> wakes every sleeping worker; from then on,
  whatever happens, no worker sleeps, and every worker that has not terminated can
  step. The round of the loop for a worker blocks while that worker has not
  terminated, so that once the round is over the worker has terminated and is
  joined; the members are destroyed only when every worker has terminated and is
  joined. The body is idempotent on a live pool: run on a pool whose flag is set and
  whose workers are all joined, it changes nothing. And the destructor can complete:
  after its first two steps the workers' own steps lead to a state from which the
  joins and the destruction of the members go through.
\<close>

theorem destructor_shutdown:
  assumes "run acts (ThreadPool n) = Inr (tr, s)" "alive s"
  shows "run [Stop, Notify_all] s = Inr ([Stopped, Notified_all], dtor_notify (dtor_stop s))
       \<and> stop (dtor_notify (dtor_stop s))
       \<and> (\<forall>acts' tr' s'. run acts' (dtor_notify (dtor_stop s)) = Inr (tr', s') \<longrightarrow>
             (\<forall>w \<in> set (workers s'). pc w \<noteq> Waiting)
             \<and> (alive s' \<longrightarrow> (\<forall>i < n. pc (workers s' ! i) \<noteq> Terminated \<longrightarrow>
                    (\<exists>ev s1. step (Worker i) s' = Inr (ev, s1)))))
       \<and> (\<forall>i. Joined i \<in> set tr \<or> Not_joinable i \<in> set tr \<longrightarrow>
             stop s \<and> pc (workers s ! i) = Terminated \<and> \<not> joinable (workers s ! i))
       \<and> (\<forall>i. i < n \<and> pc (workers s ! i) \<noteq> Terminated \<longrightarrow> step (Join i) s = Inl Blocked)
       \<and> (\<forall>ev s1. step Destroy s = Inr (ev, s1) \<longrightarrow>
             stop s \<and> (\<forall>w \<in> set (workers s). pc w = Terminated \<and> \<not> joinable w))
       \<and> (stop s \<and> (\<forall>w \<in> set (workers s). \<not> joinable w) \<longrightarrow>
             run (Stop # Notify_all # map Join [0..<n]) s
               = Inr (Stopped # Notified_all # map Not_joinable [0..<n], s))
       \<and> (\<exists>ws tr' s'.
             run (Stop # Notify_all # map Worker ws @ map Join [0..<n] @ [Destroy]) s = Inr (tr', s')
             \<and> \<not> alive s')"
proof -
  let ?s1 = "dtor_notify (dtor_stop s)"
  have life: "inv_life s" by (rule run_inv_life[OF assms(1)])
  have len: "length (workers s) = n"
    using run_length_workers[OF assms(1)] by (simp add: length_workers_ThreadPool)
  have 1: "run [Stop, Notify_all] s = Inr ([Stopped, Notified_all], ?s1)"
    by (rule stop_notify[OF assms(2)])
  have 2: "stop ?s1" by (simp add: dtor_stop_def)
  have 3: "\<forall>acts' tr' s'. run acts' ?s1 = Inr (tr', s') \<longrightarrow>
             (\<forall>w \<in> set (workers s'). pc w \<noteq> Waiting)
             \<and> (alive s' \<longrightarrow> (\<forall>i < n. pc (workers s' ! i) \<noteq> Terminated \<longrightarrow>
                    (\<exists>ev s1. step (Worker i) s' = Inr (ev, s1))))"
  proof (intro allI impI conjI)
    fix acts' tr' s' assume r: "run acts' ?s1 = Inr (tr', s')"
    show nw: "\<forall>w \<in> set (workers s'). pc w \<noteq> Waiting"
      by (rule run_no_sleep[OF r 2 notify_wakes])
    fix i assume a: "alive s'" "i < n" "pc (workers s' ! i) \<noteq> Terminated"
    have l: "length (workers s') = n"
      using run_length_workers[OF r] len by (simp add: dtor_stop_def)
    have st: "stop s'" using run_stop[OF r] 2 by simp
    from nw a(2) l have "pc (workers s' ! i) \<noteq> Waiting" by (auto dest: nth_mem)
    with worker_enabled[OF a(1) st, of i] a(2,3) l
    show "\<exists>ev s1. step (Worker i) s' = Inr (ev, s1)" by simp
  qed
  have 4: "\<forall>i. Joined i \<in> set tr \<or> Not_joinable i \<in> set tr \<longrightarrow>
             stop s \<and> pc (workers s ! i) = Terminated \<and> \<not> joinable (workers s ! i)"
  proof (intro allI impI)
    fix i assume "Joined i \<in> set tr \<or> Not_joinable i \<in> set tr"
    with run_inv_join[OF assms(1)] have i: "i < length (workers s)" "\<not> joinable (workers s ! i)"
      by (auto simp: inv_join_def)
    then have "workers s ! i \<in> set (workers s)" by simp
    with i life have t: "pc (workers s ! i) = Terminated" unfolding inv_life_def by blast
    with \<open>workers s ! i \<in> set (workers s)\<close> life have "stop s" unfolding inv_life_def by blast
    with t i show "stop s \<and> pc (workers s ! i) = Terminated \<and> \<not> joinable (workers s ! i)"
      by simp
  qed
  have 5: "\<forall>i. i < n \<and> pc (workers s ! i) \<noteq> Terminated \<longrightarrow> step (Join i) s = Inl Blocked"
  proof (intro allI impI)
    fix i assume i: "i < n \<and> pc (workers s ! i) \<noteq> Terminated"
    with alive_of_active[OF life, of i] len have "joinable (workers s ! i)" by simp
    with i assms(2) show "step (Join i) s = Inl Blocked" by (simp add: step_def dtor_join_def)
  qed
  have 6: "\<forall>ev s1. step Destroy s = Inr (ev, s1) \<longrightarrow>
             stop s \<and> (\<forall>w \<in> set (workers s). pc w = Terminated \<and> \<not> joinable w)"
  proof (intro allI impI)
    fix ev s1 assume "step Destroy s = Inr (ev, s1)"
    then have "stop s \<and> (\<forall>w \<in> set (workers s). \<not> joinable w)"
      by (cases rule: stepE) (auto simp: list_all_iff)
    with life show "stop s \<and> (\<forall>w \<in> set (workers s). pc w = Terminated \<and> \<not> joinable w)"
      unfolding inv_life_def by blast
  qed
  have 7: "stop s \<and> (\<forall>w \<in> set (workers s). \<not> joinable w) \<longrightarrow>
             run (Stop # Notify_all # map Join [0..<n]) s
               = Inr (Stopped # Notified_all # map Not_joinable [0..<n], s)"
  proof
    assume a: "stop s \<and> (\<forall>w \<in> set (workers s). \<not> joinable w)"
    with life have "\<forall>w \<in> set (workers s). pc w = Terminated" unfolding inv_life_def by blast
    then have "map wake_up (workers s) = workers s"
      by (intro map_idI) (simp add: wake_up_def)
    with a have "?s1 = s" by (simp add: dtor_notify_def dtor_stop_def)
    with 1 have "run [Stop, Notify_all] s = Inr ([Stopped, Notified_all], s)" by simp
    moreover have "run (map Join [0..<n]) s = Inr (map Not_joinable [0..<n], s)"
      using joins_noop[OF assms(2), of n] a len by simp
    ultimately have "run ([Stop, Notify_all] @ map Join [0..<n]) s
               = Inr ([Stopped, Notified_all] @ map Not_joinable [0..<n], s)"
      unfolding run_append by simp
    then show "run (Stop # Notify_all # map Join [0..<n]) s
               = Inr (Stopped # Notified_all # map Not_joinable [0..<n], s)"
      by simp
  qed
  have 8: "\<exists>ws tr' s'.
             run (Stop # Notify_all # map Worker ws @ map Join [0..<n] @ [Destroy]) s = Inr (tr', s')
             \<and> \<not> alive s'"
    using destructor_completes[OF assms(2)] len by simp
  from 1 2 3 4 5 6 7 8 show ?thesis by blast
qed

theorem destructor_shutdown_witness:
  "run [Worker 1, Enqueue (Inr 7), Worker 0] (ThreadPool 2 :: int pool)
     = Inr ([Slept 1, Enqueued 0, Dequeued 0 0],
            \<lparr>workers = [\<lparr>pc = Executing 0, joinable = True\<rparr>, \<lparr>pc = Waiting, joinable = True\<rparr>],
             tasks = [], stop = False, alive = True,
             heap = [\<lparr>fn = Inr 7, result = None\<rparr>], cerr = []\<rparr>)
   \<and> run [Stop, Notify_all]
         \<lparr>workers = [\<lparr>pc = Executing 0, joinable = True\<rparr>, \<lparr>pc = Waiting, joinable = True\<rparr>],
          tasks = [], stop = False, alive = True,
          heap = [\<lparr>fn = Inr (7::int), result = None\<rparr>], cerr = []\<rparr>
     = Inr ([Stopped, Notified_all],
            \<lparr>workers = [\<lparr>pc = Executing 0, joinable = True\<rparr>, \<lparr>pc = Idle, joinable = True\<rparr>],
             tasks = [], stop = True, alive = True,
             heap = [\<lparr>fn = Inr 7, result = None\<rparr>], cerr = []\<rparr>)
   \<and> run [Worker 1, Enqueue (Inr 7), Worker 0, Stop, Notify_all, Worker 1, Worker 0, Worker 0,
           Join 0, Join 1]
         (ThreadPool 2 :: int pool)
     = Inr ([Slept 1, Enqueued 0, Dequeued 0 0, Stopped, Notified_all, Exited 1, Executed 0 0,
             Exited 0, Joined 0, Joined 1],
            \<lparr>workers = [\<lparr>pc = Terminated, joinable = False\<rparr>, \<lparr>pc = Terminated, joinable = False\<rparr>],
             tasks = [], stop = True, alive = True,
             heap = [\<lparr>fn = Inr 7, result = Some (Inr 7)\<rparr>], cerr = []\<rparr>)
   \<and> run [Stop, Notify_all, Join 0, Join 1]
         \<lparr>workers = [\<lparr>pc = Terminated, joinable = False\<rparr>, \<lparr>pc = Terminated, joinable = False\<rparr>],
          tasks = [], stop = True, alive = True,
          heap = [\<lparr>fn = Inr (7::int), result = Some (Inr 7)\<rparr>], cerr = []\<rparr>
     = Inr ([Stopped, Notified_all, Not_joinable 0, Not_joinable 1],
            \<lparr>workers = [\<lparr>pc = Terminated, joinable = False\<rparr>, \<lparr>pc = Terminated, joinable = False\<rparr>],
             tasks = [], stop = True, alive = True,
             heap = [\<lparr>fn = Inr 7, result = Some (Inr 7)\<rparr>], cerr = []\<rparr>)"
proof -
  have r0: "run [Worker 1, Enqueue (Inr 7), Worker 0] (ThreadPool 2 :: int pool)
     = Inr ([Slept 1, Enqueued 0, Dequeued 0 0],
            \<lparr>workers = [\<lparr>pc = Executing 0, joinable = True\<rparr>, \<lparr>pc = Waiting, joinable = True\<rparr>],
             tasks = [], stop = False, alive = True,
             heap = [\<lparr>fn = Inr 7, result = None\<rparr>], cerr = []\<rparr>)"
    by (simp add: eval_defs)
  have r1: "run [Worker 1, Enqueue (Inr 7), Worker 0, Stop, Notify_all, Worker 1, Worker 0, Worker 0,
           Join 0, Join 1]
         (ThreadPool 2 :: int pool)
     = Inr ([Slept 1, Enqueued 0, Dequeued 0 0, Stopped, Notified_all, Exited 1, Executed 0 0,
             Exited 0, Joined 0, Joined 1],
            \<lparr>workers = [\<lparr>pc = Terminated, joinable = False\<rparr>, \<lparr>pc = Terminated, joinable = False\<rparr>],
             tasks = [], stop = True, alive = True,
             heap = [\<lparr>fn = Inr 7, result = Some (Inr 7)\<rparr>], cerr = []\<rparr>)"
    by (simp add: eval_defs)
  from destructor_shutdown[OF r0, THEN conjunct1]
  have a: "run [Stop, Notify_all]
         \<lparr>workers = [\<lparr>pc = Executing 0, joinable = True\<rparr>, \<lparr>pc = Waiting, joinable = True\<rparr>],
          tasks = [], stop = False, alive = True,
          heap = [\<lparr>fn = Inr (7::int), result = None\<rparr>], cerr = []\<rparr>
     = Inr ([Stopped, Notified_all],
            \<lparr>workers = [\<lparr>pc = Executing 0, joinable = True\<rparr>, \<lparr>pc = Idle, joinable = True\<rparr>],
             tasks = [], stop = True, alive = True,
             heap = [\<lparr>fn = Inr 7, result = None\<rparr>], cerr = []\<rparr>)"
    by (simp add: dtor_notify_def dtor_stop_def wake_up_def)
  from destructor_shutdown[OF r1, THEN conjunct2, THEN conjunct2, THEN conjunct2, THEN conjunct2,
      THEN conjunct2, THEN conjunct2, THEN conjunct1]
  have b: "run [Stop, Notify_all, Join 0, Join 1]
         \<lparr>workers = [\<lparr>pc = Terminated, joinable = False\<rparr>, \<lparr>pc = Terminated, joinable = False\<rparr>],
          tasks = [], stop = True, alive = True,
          heap = [\<lparr>fn = Inr (7::int), result = Some (Inr 7)\<rparr>], cerr = []\<rparr>
     = Inr ([Stopped, Notified_all, Not_joinable 0, Not_joinable 1],
            \<lparr>workers = [\<lparr>pc = Terminated, joinable = False\<rparr>, \<lparr>pc = Terminated, joinable = False\<rparr>],
             tasks = [], stop = True, alive = True,
             heap = [\<lparr>fn = Inr 7, result = Some (Inr 7)\<rparr>], cerr = []\<rparr>)"
    by (simp add: eval_nat_numeral)
  from r0 a r1 b show ?thesis by blast
qed

end
